theory Spec2Isabelle
  imports Complex_Main
begin

section \<open>Shared data types (src/swarm/types.ts)\<close>

datatype batch_status = Pending | Processing | Completed | Failed

text \<open>
  \<open>SwarmBatch\<close>: the optional fields are options; counts and indices are natural
  numbers, timestamps are integers (milliseconds).
\<close>

record SwarmBatch =
  index :: nat
  items :: "string list"
  status :: batch_status
  result :: "string option"
  error :: "string option"
  startTime :: "int option"
  endTime :: "int option"
  retries :: nat

text \<open>\<open>SWARM_DEFAULTS\<close>.\<close>

definition default_concurrency :: nat where "default_concurrency = 5"
definition default_batch_size :: nat where "default_batch_size = 25"
definition max_retries :: nat where "max_retries = 2"
definition hierarchical_reduce_fanin :: nat where "hierarchical_reduce_fanin = 20"

section \<open>Batch splitter (src/swarm/batch-splitter.ts)\<close>

text \<open>
  \<open>Array.prototype.slice(b, e)\<close> for non-negative integer arguments: the elements at
  positions \<open>b \<le> p < min e (length xs)\<close>; empty when \<open>e \<le> b\<close>.
\<close>

definition slice :: "'a list \<Rightarrow> nat \<Rightarrow> nat \<Rightarrow> 'a list" where
  "slice xs b e = take (e - b) (drop b xs)"

text \<open>
  \<open>new_batch\<close> is the object literal pushed by the loop of \<open>splitIntoBatches\<close>, with
  \<open>n = batches.length\<close>. In the loop, \<open>i\<close> is the loop variable and \<open>batches\<close> the array
  built so far. The loop has no bound of its own (with a step of \<open>0\<close> it would
  never end), so not returning is the value \<open>None\<close>.
\<close>

definition new_batch :: "string list \<Rightarrow> nat \<Rightarrow> nat \<Rightarrow> nat \<Rightarrow> SwarmBatch" where
  "new_batch its sz i n =
     \<lparr> index = n, items = slice its i (i + sz), status = Pending, result = None,
       error = None, startTime = None, endTime = None, retries = 0 \<rparr>"

partial_function (option) split_loop ::
  "string list \<Rightarrow> nat \<Rightarrow> nat \<Rightarrow> SwarmBatch list \<Rightarrow> SwarmBatch list option" where
  "split_loop its sz i batches =
     (if i < length its
      then split_loop its sz (i + sz) (batches @ [new_batch its sz i (length batches)])
      else Some batches)"

declare split_loop.simps [code]

text \<open>
  \<open>const size = batchSize || SWARM_DEFAULTS.batch_size\<close>: a batch size of \<open>0\<close> is falsy
  and replaced by the default. Batch sizes are non-negative integers here.
\<close>

definition splitIntoBatches :: "string list \<Rightarrow> nat \<Rightarrow> SwarmBatch list option" where
  "splitIntoBatches its batchSize =
     (let sz = (if batchSize = 0 then default_batch_size else batchSize)
      in split_loop its sz 0 [])"

section \<open>Template resolver (src/swarm/batch-splitter.ts)\<close>

text \<open>
  Strings are lists of 8-bit characters, so the regular expressions below are read
  over ASCII text: \<open>\w\<close> is \<open>[A-Za-z0-9_]\<close>, \<open>\d\<close> is \<open>[0-9]\<close>, and \<open>\s\<close> is the ASCII
  white space (tab, line feed, vertical tab, form feed, carriage return, space).
  Each regular expression of the source is one matcher: it tries the pattern at the
  head of the text, and a scan tries every start position from the left, as
  \<open>RegExp.prototype.exec\<close> does.
\<close>

definition is_word :: "char \<Rightarrow> bool" where
  "is_word c = (c \<in> set (''abcdefghijklmnopqrstuvwxyz'' @ ''ABCDEFGHIJKLMNOPQRSTUVWXYZ'' @
                          ''0123456789_''))"

definition is_digit :: "char \<Rightarrow> bool" where
  "is_digit c = (c \<in> set ''0123456789'')"

definition is_space :: "char \<Rightarrow> bool" where
  "is_space c = (c \<in> set [CHR 0x09, CHR 0x0A, CHR 0x0B, CHR 0x0C, CHR 0x0D, CHR 0x20])"

definition is_quote :: "char \<Rightarrow> bool" where
  "is_quote c = (c = CHR 0x22 \<or> c = CHR 0x27)"

definition backtick :: char where
  "backtick = CHR 0x60"

definition toLowerCase :: "string \<Rightarrow> string" where
  "toLowerCase s =
     map (\<lambda>c. if c \<in> set ''ABCDEFGHIJKLMNOPQRSTUVWXYZ''
              then char_of (of_char c + (32::nat)) else c) s"

definition head :: "string \<Rightarrow> char option" where
  "head s = (case s of [] \<Rightarrow> None | c # cs \<Rightarrow> Some c)"

text \<open>\<open>\b\<close>: exactly one of the two neighbours is a word character.\<close>

definition word_boundary :: "char option \<Rightarrow> char option \<Rightarrow> bool" where
  "word_boundary prev next =
     ((case prev of None \<Rightarrow> False | Some c \<Rightarrow> is_word c) \<noteq>
      (case next of None \<Rightarrow> False | Some c \<Rightarrow> is_word c))"

text \<open>
  \<open>/\{\{(\w+)\}\}/g\<close> at the head of the text: the name and the text after the match.
\<close>

definition match_param :: "string \<Rightarrow> (string \<times> string) option" where
  "match_param s =
     (if take 2 s = ''{{''
      then (let name = takeWhile is_word (drop 2 s);
                after = dropWhile is_word (drop 2 s)
            in if name \<noteq> [] \<and> take 2 after = ''}}'' then Some (name, drop 2 after)
               else None)
      else None)"

lemma match_param_shorter:
  "match_param s = Some (name, rest) \<Longrightarrow> length rest < length s"
proof -
  assume m: "match_param s = Some (name, rest)"
  then have s: "take 2 s = ''{{''" and r: "rest = drop 2 (dropWhile is_word (drop 2 s))"
    by (auto simp: match_param_def Let_def split: if_splits)
  from s have "length (take 2 s) = 2" by simp
  then have "2 \<le> length s" by simp
  moreover have "length (dropWhile is_word (drop 2 s)) \<le> length (drop 2 s)"
    by (rule length_dropWhile_le)
  ultimately show ?thesis using r by simp
qed

text \<open>The loop \<open>while ((match = paramRegex.exec(template)) !== null)\<close>.\<close>

function param_scan :: "string \<Rightarrow> string list" where
  "param_scan s =
     (if s = [] then []
      else (case match_param s of
              Some (name, rest) \<Rightarrow> name # param_scan rest
            | None \<Rightarrow> param_scan (tl s)))"
  by pat_completeness auto
termination
  by (relation "measure length") (auto dest: match_param_shorter)

declare param_scan.simps [simp del]

text \<open>
  \<open>/(\w+)\s*=\s*["']?([^\s"']+)["']?/g\<close> at the head of the text: key, value and the text
  after the match. Every quantifier is greedy and no shorter choice can match: after
  a shorter key comes a word character, after less white space comes white space, and
  a value cannot start at a quote.
\<close>

definition is_value :: "char \<Rightarrow> bool" where
  "is_value c = (\<not> is_space c \<and> \<not> is_quote c)"

definition skip_quote :: "string \<Rightarrow> string" where
  "skip_quote s = (case s of [] \<Rightarrow> [] | c # cs \<Rightarrow> if is_quote c then cs else c # cs)"

definition match_kv :: "string \<Rightarrow> (string \<times> string \<times> string) option" where
  "match_kv s =
     (let key = takeWhile is_word s;
          r1 = dropWhile is_space (dropWhile is_word s)
      in if key = [] then None
         else (case r1 of
                 [] \<Rightarrow> None
               | c # r2 \<Rightarrow>
                   if c = CHR ''=''
                   then (let r3 = skip_quote (dropWhile is_space r2);
                             val = takeWhile is_value r3
                         in if val = [] then None
                            else Some (key, val, skip_quote (dropWhile is_value r3)))
                   else None))"

lemma skip_quote_le:
  "length (skip_quote s) \<le> length s"
  by (cases s) (auto simp: skip_quote_def)

lemma match_kv_shorter:
  "match_kv s = Some (k, v, rest) \<Longrightarrow> length rest < length s"
proof -
  assume m: "match_kv s = Some (k, v, rest)"
  then obtain r2 where r1: "dropWhile is_space (dropWhile is_word s) = CHR ''='' # r2"
    and rest: "rest = skip_quote (dropWhile is_value (skip_quote (dropWhile is_space r2)))"
    by (auto simp: match_kv_def Let_def split: if_splits list.splits)
  have "length rest \<le> length (dropWhile is_value (skip_quote (dropWhile is_space r2)))"
    unfolding rest by (rule skip_quote_le)
  also have "\<dots> \<le> length (skip_quote (dropWhile is_space r2))"
    by (rule length_dropWhile_le)
  also have "\<dots> \<le> length (dropWhile is_space r2)"
    by (rule skip_quote_le)
  also have "\<dots> \<le> length r2"
    by (rule length_dropWhile_le)
  also have "\<dots> < length (dropWhile is_space (dropWhile is_word s))"
    by (simp add: r1)
  also have "\<dots> \<le> length (dropWhile is_word s)"
    by (rule length_dropWhile_le)
  also have "\<dots> \<le> length s"
    by (rule length_dropWhile_le)
  finally show ?thesis .
qed

text \<open>
  The object \<open>kvMap\<close> is created by the literal \<open>{}\<close>. It has the properties that the
  loop below assigns, which hold strings, and it inherits the properties of
  \<open>Object.prototype\<close>. Every key that the function writes or reads is lower-cased, and
  of the inherited properties only two have a name without a capital letter:
  \<open>constructor\<close>, which is the function \<open>Object\<close>, and \<open>__proto__\<close>, an accessor whose
  getter returns \<open>Object.prototype\<close> and whose setter ignores a string. So a JavaScript
  value here is \<open>undefined\<close>, a string, or one of these two objects, and \<open>kvMap\<close> is the
  finite map of its own properties, read and written through \<open>get_property\<close> and
  \<open>set_property\<close>.
\<close>

datatype js_value = Undefined | Str string | ObjectConstructor | ObjectPrototype

definition set_property :: "(string \<rightharpoonup> string) \<Rightarrow> string \<Rightarrow> string \<Rightarrow> (string \<rightharpoonup> string)" where
  "set_property obj key v = (if key = ''__proto__'' then obj else obj(key \<mapsto> v))"

definition get_property :: "(string \<rightharpoonup> string) \<Rightarrow> string \<Rightarrow> js_value" where
  "get_property obj key =
     (case obj key of
        Some v \<Rightarrow> Str v
      | None \<Rightarrow>
          if key = ''constructor'' then ObjectConstructor
          else if key = ''__proto__'' then ObjectPrototype
          else Undefined)"

text \<open>
  The loop \<open>while ((kvMatch = kvRegex.exec(userMessage)) !== null)\<close>, with the
  assignment \<open>kvMap[kvMatch[1].toLowerCase()] = kvMatch[2]\<close>: a later pair overwrites an
  earlier one.
\<close>

function kv_scan :: "string \<Rightarrow> (string \<rightharpoonup> string) \<Rightarrow> (string \<rightharpoonup> string)" where
  "kv_scan s kvMap =
     (if s = [] then kvMap
      else (case match_kv s of
              Some (k, v, rest) \<Rightarrow> kv_scan rest (set_property kvMap (toLowerCase k) v)
            | None \<Rightarrow> kv_scan (tl s) kvMap))"
  by pat_completeness auto
termination
  by (relation "measure (\<lambda>(s, m). length s)") (auto dest: match_kv_shorter)

declare kv_scan.simps [simp del]

text \<open>
  \<open>/\b([\w.-]+\/[\w.-]+)\b/\<close> at the head of the text, \<open>prev\<close> being the character before
  it. The first group must extend to the slash. The second group is taken as long as
  possible and shortened until it ends at a word boundary.
\<close>

definition is_repo :: "char \<Rightarrow> bool" where
  "is_repo c = (is_word c \<or> c = CHR ''.'' \<or> c = CHR ''-'')"

fun longest_boundary :: "string \<Rightarrow> char option \<Rightarrow> nat \<Rightarrow> nat option" where
  "longest_boundary run next 0 = None"
| "longest_boundary run next (Suc j) =
     (if word_boundary (Some (run ! j)) (if Suc j < length run then Some (run ! Suc j) else next)
      then Some (Suc j)
      else longest_boundary run next j)"

definition match_repo :: "char option \<Rightarrow> string \<Rightarrow> string option" where
  "match_repo prev s =
     (let owner = takeWhile is_repo s;
          r1 = dropWhile is_repo s
      in if owner = [] \<or> \<not> word_boundary prev (head s) then None
         else (case r1 of
                 [] \<Rightarrow> None
               | c # r2 \<Rightarrow>
                   if c = CHR ''/''
                   then (let run = takeWhile is_repo r2
                         in case longest_boundary run (head (dropWhile is_repo r2)) (length run) of
                              None \<Rightarrow> None
                            | Some j \<Rightarrow> Some (owner @ ''/'' @ take j run))
                   else None))"

fun repo_scan :: "char option \<Rightarrow> string \<Rightarrow> string option" where
  "repo_scan prev [] = None"
| "repo_scan prev (c # cs) =
     (case match_repo prev (c # cs) of
        Some r \<Rightarrow> Some r
      | None \<Rightarrow> repo_scan (Some c) cs)"

text \<open>
  \<open>/\b(\d{2,})\b/\<close> at the head of the text: a run of digits that is two or more long,
  starts after a non-word character and ends before one.
\<close>

definition match_num :: "char option \<Rightarrow> string \<Rightarrow> string option" where
  "match_num prev s =
     (let ds = takeWhile is_digit s
      in if 2 \<le> length ds \<and> word_boundary prev (head s) \<and>
            word_boundary (Some (last ds)) (head (dropWhile is_digit s))
         then Some ds else None)"

fun num_scan :: "char option \<Rightarrow> string \<Rightarrow> string option" where
  "num_scan prev [] = None"
| "num_scan prev (c # cs) =
     (case match_num prev (c # cs) of
        Some r \<Rightarrow> Some r
      | None \<Rightarrow> num_scan (Some c) cs)"

text \<open>The backtick pattern: a backtick, one or more other characters, a backtick.\<close>

definition match_backtick :: "string \<Rightarrow> string option" where
  "match_backtick s =
     (case s of
        [] \<Rightarrow> None
      | c # r \<Rightarrow>
          if c = backtick
          then (let body = takeWhile (\<lambda>d. d \<noteq> backtick) r
                in if body \<noteq> [] \<and> dropWhile (\<lambda>d. d \<noteq> backtick) r \<noteq> [] then Some body
                   else None)
          else None)"

fun backtick_scan :: "string \<Rightarrow> string option" where
  "backtick_scan [] = None"
| "backtick_scan (c # cs) =
     (case match_backtick (c # cs) of
        Some r \<Rightarrow> Some r
      | None \<Rightarrow> backtick_scan cs)"

text \<open>
  \<open>String.prototype.replace\<close> with a string pattern: the first occurrence is replaced.
  A replacement that is not a function is converted to a string, in which \<open>$$\<close>, \<open>$&\<close>,
  \<open>$`\<close> and \<open>$'\<close> stand for a dollar sign, the matched text, the text before it and the
  text after it; no other \<open>$\<close> sequence is special, as a string pattern has no capture
  groups. A replacement that is a function is called with the matched text, and its
  result, converted to a string, is inserted as it is: the function \<open>Object\<close> returns
  the \<open>String\<close> object of the matched text, so the text stays as it was.
\<close>

fun find_sub :: "string \<Rightarrow> string \<Rightarrow> (string \<times> string) option" where
  "find_sub pat [] = (if pat = [] then Some ([], []) else None)"
| "find_sub pat (c # cs) =
     (if take (length pat) (c # cs) = pat then Some ([], drop (length pat) (c # cs))
      else map_option (\<lambda>(pre, post). (c # pre, post)) (find_sub pat cs))"

fun substitution :: "string \<Rightarrow> string \<Rightarrow> string \<Rightarrow> string \<Rightarrow> string" where
  "substitution matched pre post (c # d # r) =
     (if c = CHR ''$'' \<and> d = CHR ''$'' then CHR ''$'' # substitution matched pre post r
      else if c = CHR ''$'' \<and> d = CHR ''&'' then matched @ substitution matched pre post r
      else if c = CHR ''$'' \<and> d = backtick then pre @ substitution matched pre post r
      else if c = CHR ''$'' \<and> d = CHR 0x27 then post @ substitution matched pre post r
      else c # substitution matched pre post (d # r))"
| "substitution matched pre post r = r"

definition replace :: "string \<Rightarrow> string \<Rightarrow> js_value \<Rightarrow> string" where
  "replace s pat replaceValue =
     (case find_sub pat s of
        None \<Rightarrow> s
      | Some (pre, post) \<Rightarrow>
          pre @
          (case replaceValue of
             Str replacement \<Rightarrow> substitution pat pre post replacement
           | ObjectConstructor \<Rightarrow> pat
           | ObjectPrototype \<Rightarrow> substitution pat pre post ''[object Object]''
           | Undefined \<Rightarrow> substitution pat pre post ''undefined'') @
          post)"

definition placeholder :: "string \<Rightarrow> string" where
  "placeholder param = ''{{'' @ param @ ''}}''"

text \<open>
  A JavaScript value used as a condition: \<open>undefined\<close> and the empty string are falsy,
  every other string and every object is truthy.
\<close>

definition truthy :: "js_value \<Rightarrow> bool" where
  "truthy v = (case v of Undefined \<Rightarrow> False | Str s \<Rightarrow> s \<noteq> [] | _ \<Rightarrow> True)"

text \<open>
  The loop \<open>for (const param of params)\<close>: \<open>continue\<close> is the recursive call on the
  remaining parameters, \<open>return backtickMatch[1]\<close> ends the function.
\<close>

fun resolve_loop :: "(string \<rightharpoonup> string) \<Rightarrow> string \<Rightarrow> string list \<Rightarrow> string \<Rightarrow> string" where
  "resolve_loop kvMap userMessage [] resolved = resolved"
| "resolve_loop kvMap userMessage (param # params) resolved =
     (if truthy (get_property kvMap (toLowerCase param))
      then resolve_loop kvMap userMessage params
             (replace resolved (placeholder param) (get_property kvMap (toLowerCase param)))
      else (case (if param = ''repo'' then repo_scan None userMessage else None) of
              Some repoMatch \<Rightarrow>
                resolve_loop kvMap userMessage params
                  (replace resolved (placeholder param) (Str repoMatch))
            | None \<Rightarrow>
                (case (if param = ''limit'' then num_scan None userMessage else None) of
                   Some numMatch \<Rightarrow>
                     resolve_loop kvMap userMessage params
                       (replace resolved (placeholder param) (Str numMatch))
                 | None \<Rightarrow>
                     (case backtick_scan userMessage of
                        Some backtickMatch \<Rightarrow> backtickMatch
                      | None \<Rightarrow> resolve_loop kvMap userMessage params resolved))))"

text \<open>\<open>resolveTemplateParams\<close>; the object literal \<open>{}\<close> has no property of its own.\<close>

definition resolveTemplateParams :: "string \<Rightarrow> string \<Rightarrow> string" where
  "resolveTemplateParams template userMessage =
     (let params = param_scan template
      in if params = [] then template
         else resolve_loop (kv_scan userMessage Map.empty) userMessage params template)"

section \<open>Settled promises and the external agent\<close>

text \<open>
  A settled promise is fulfilled with a value or rejected with an error message
  (\<open>(error as Error).message\<close>). A function that never settles returns \<open>None\<close> where its
  result type is an option.
\<close>

datatype 'a settled = Fulfilled 'a | Rejected string

section \<open>Reducer (src/swarm/reducer.ts)\<close>

text \<open>
  Strings are lists of characters and \<open>.length\<close> is the length of the list. Template
  literals render a number in decimal.
\<close>

fun string_of_nat :: "nat \<Rightarrow> string" where
  "string_of_nat n =
     (if n < 10 then [char_of (48 + n)]
      else string_of_nat (n div 10) @ [char_of (48 + n mod 10)])"

declare string_of_nat.simps [simp del]

definition nl :: string where
  "nl = [CHR 0x0A]"

text \<open>\<open>Array.prototype.join\<close>.\<close>

fun join :: "string \<Rightarrow> string list \<Rightarrow> string" where
  "join sep [] = []"
| "join sep [x] = x"
| "join sep (x # y # ys) = x @ sep @ join sep (y # ys)"

text \<open>
  The fields of \<open>ReduceOptions\<close> that the reducer reads to build its prompts:
  \<open>options.config.reduce?.prompt\<close> and \<open>options.userMessage\<close>. The agent that is invoked
  (\<open>reduceAgent\<close>, \<open>reduceAgentId\<close>) is the external collaborator below.
\<close>

record ReduceOptions =
  reduce_prompt :: "string option"
  userMessage :: string

text \<open>
  \<open>invokeAgent\<close> is external: an agent is any function from the number of the call
  (how many invocations came before) and the prompt to a settled promise.
  The reducer threads the list of the prompts it has sent so far.
\<close>

type_synonym agent = "nat \<Rightarrow> string \<Rightarrow> string settled"

definition invokeAgent :: "agent \<Rightarrow> string \<Rightarrow> string list \<Rightarrow> string settled \<times> string list" where
  "invokeAgent ag prompt sent = (ag (length sent) prompt, sent @ [prompt])"

definition batch_heading :: "nat \<Rightarrow> nat \<times> string \<Rightarrow> string" where
  "batch_heading n = (\<lambda>(i, r).
     ''## Batch '' @ string_of_nat (i + 1) @ '' of '' @ string_of_nat n @ nl @ nl @ r)"

definition reduceConcatenate :: "string list \<Rightarrow> string" where
  "reduceConcatenate batchResults =
     (if length batchResults = 1 then batchResults ! 0
      else join (nl @ nl @ ''---'' @ nl @ nl)
             (map (batch_heading (length batchResults)) (enumerate 0 batchResults)))"

definition default_instruction :: string where
  "default_instruction =
     ''Please synthesize and consolidate these results into a clear, organized summary. '' @
     ''Highlight key findings, patterns, and any items that need attention. '' @
     ''Remove redundancy while preserving important details.''"

definition top_context :: "nat \<Rightarrow> string" where
  "top_context batchCount =
     ''The following are results from processing '' @ string_of_nat batchCount @
     '' batch(es) of a large-scale task.''"

definition group_context :: "nat \<Rightarrow> nat \<Rightarrow> nat \<Rightarrow> nat \<Rightarrow> string" where
  "group_context batchCount level groupIndex totalGroups =
     ''The following are results from group '' @ string_of_nat (groupIndex + 1) @ '' of '' @
     string_of_nat totalGroups @ '' (reduction level '' @ string_of_nat (level + 1) @
     ''), containing '' @ string_of_nat batchCount @ '' batch results.''"

text \<open>
  \<open>buildReducePrompt\<close>. The three optional parameters are options; the custom prompt is
  used when it is truthy (present and not the empty string).
\<close>

definition buildReducePrompt ::
  "string \<Rightarrow> nat \<Rightarrow> ReduceOptions \<Rightarrow> nat option \<Rightarrow> nat option \<Rightarrow> nat option \<Rightarrow> string" where
  "buildReducePrompt combinedResults batchCount options level groupIndex totalGroups =
     (let contextLine =
            (case (level, groupIndex, totalGroups) of
               (Some l, Some g, Some t) \<Rightarrow> group_context batchCount l g t
             | _ \<Rightarrow> top_context batchCount);
          instruction =
            (case reduce_prompt options of
               Some userReducePrompt \<Rightarrow>
                 if userReducePrompt \<noteq> [] then userReducePrompt @ nl @ nl @ contextLine
                 else contextLine @ nl @ nl @ default_instruction
             | None \<Rightarrow> contextLine @ nl @ nl @ default_instruction);
          originalTask = ''Original task: '' @ userMessage options
      in instruction @ nl @ nl @ originalTask @ nl @ nl @ ''---'' @ nl @ nl @ combinedResults)"

text \<open>
  The grouping loop of \<open>reduceHierarchical\<close>, with \<open>fanin\<close> the constant
  \<open>SWARM_DEFAULTS.hierarchical_reduce_fanin\<close>.
\<close>

function group_loop :: "string list \<Rightarrow> nat \<Rightarrow> string list list \<Rightarrow> string list list" where
  "group_loop batchResults i groups =
     (if i < length batchResults
      then group_loop batchResults (i + hierarchical_reduce_fanin)
             (groups @ [slice batchResults i (i + hierarchical_reduce_fanin)])
      else groups)"
  by pat_completeness auto
termination
  by (relation "measure (\<lambda>(rs, i, gs). length rs - i)")
     (auto simp: hierarchical_reduce_fanin_def)

declare group_loop.simps [simp del]

text \<open>
  One group pass: the callback of \<open>groups.map\<close>. Its \<open>try\<close>/\<open>catch\<close> returns the group's
  own concatenation when the agent rejects.
\<close>

definition reduce_group ::
  "agent \<Rightarrow> ReduceOptions \<Rightarrow> nat \<Rightarrow> nat \<Rightarrow> nat \<Rightarrow> string list \<Rightarrow> string list
   \<Rightarrow> string \<times> string list" where
  "reduce_group ag options level totalGroups groupIndex grp sent =
     (let combined = reduceConcatenate grp;
          prompt = buildReducePrompt combined (length grp) options
                     (Some level) (Some groupIndex) (Some totalGroups)
      in case invokeAgent ag prompt sent of
           (Fulfilled summary, sent') \<Rightarrow> (summary, sent')
         | (Rejected e, sent') \<Rightarrow> (combined, sent'))"

text \<open>
  \<open>Promise.all(groups.map(...))\<close>: the callbacks run in group order up to their
  \<open>await invokeAgent\<close>, so the agent is invoked for the groups in order; every callback
  catches its own rejection, so the join is fulfilled with one summary per group.
\<close>

fun reduce_groups ::
  "agent \<Rightarrow> ReduceOptions \<Rightarrow> nat \<Rightarrow> nat \<Rightarrow> nat \<Rightarrow> string list list \<Rightarrow> string list
   \<Rightarrow> string list \<times> string list" where
  "reduce_groups ag options level totalGroups groupIndex [] sent = ([], sent)"
| "reduce_groups ag options level totalGroups groupIndex (grp # rest) sent =
     (let (summary, sent') = reduce_group ag options level totalGroups groupIndex grp sent;
          (summaries, sent'') =
             reduce_groups ag options level totalGroups (groupIndex + 1) rest sent'
      in (summary # summaries, sent''))"

text \<open>
  \<open>reduceSummarize\<close> and \<open>reduceHierarchical\<close> call each other; they are one recursive
  function here, with the callee as a tag. Nothing bounds the recursion, so a call
  that never returns a result is \<open>None\<close>. (The delegation of \<open>reduceSummarize\<close> to
  \<open>reduceHierarchical\<close> and that of its base case back are plain calls made before any
  \<open>await\<close>: a chain of them that does not end by itself ends only when the call stack
  is exhausted.)
\<close>

datatype reduce_call = Summarize | Hierarchical nat

partial_function (option) reduce_rec ::
  "agent \<Rightarrow> ReduceOptions \<Rightarrow> reduce_call \<Rightarrow> string list \<Rightarrow> string list
   \<Rightarrow> (string settled \<times> string list) option" where
  "reduce_rec ag options call batchResults sent =
     (case call of
        Summarize \<Rightarrow>
          (let combined = reduceConcatenate batchResults;
               estimatedTokens = real (length combined) / 4
           in if estimatedTokens > 150000
              then reduce_rec ag options (Hierarchical 0) batchResults sent
              else (let reducePrompt =
                          buildReducePrompt combined (length batchResults) options None None None
                    in case invokeAgent ag reducePrompt sent of
                         (Fulfilled summary, sent') \<Rightarrow> Some (Fulfilled summary, sent')
                       | (Rejected e, sent') \<Rightarrow>
                           Some (Fulfilled (reduceConcatenate batchResults), sent')))
      | Hierarchical level \<Rightarrow>
          (let fanin = hierarchical_reduce_fanin
           in if length batchResults \<le> fanin
              then reduce_rec ag options Summarize batchResults sent
              else (let groups = group_loop batchResults 0 [];
                        (groupSummaries, sent') =
                           reduce_groups ag options level (length groups) 0 groups sent
                    in if length groupSummaries > fanin
                       then reduce_rec ag options (Hierarchical (level + 1)) groupSummaries sent'
                       else reduce_rec ag options Summarize groupSummaries sent')))"

declare reduce_rec.simps [code]

definition reduceSummarize ::
  "agent \<Rightarrow> ReduceOptions \<Rightarrow> string list \<Rightarrow> string list
   \<Rightarrow> (string settled \<times> string list) option" where
  "reduceSummarize ag options batchResults sent =
     reduce_rec ag options Summarize batchResults sent"

definition reduceHierarchical ::
  "agent \<Rightarrow> ReduceOptions \<Rightarrow> nat \<Rightarrow> string list \<Rightarrow> string list
   \<Rightarrow> (string settled \<times> string list) option" where
  "reduceHierarchical ag options level batchResults sent =
     reduce_rec ag options (Hierarchical level) batchResults sent"

subsection \<open>Example inputs for the reducer\<close>

definition ex_options :: ReduceOptions where
  "ex_options = \<lparr>reduce_prompt = None, userMessage = ''task''\<rparr>"

definition ex_custom_options :: ReduceOptions where
  "ex_custom_options = \<lparr>reduce_prompt = Some ''C'', userMessage = ''t''\<rparr>"

definition failing_agent :: agent where
  "failing_agent = (\<lambda>callNo prompt. Rejected ''agent failed'')"

definition flaky_agent :: agent where
  "flaky_agent =
     (\<lambda>callNo prompt. if callNo = 1 then Rejected ''agent failed'' else Fulfilled ''S'')"

subsection \<open>Example inputs for the template resolver\<close>

definition ex_template :: string where
  "ex_template = ''run {{repo}} with {{mode}} and {{limit}}''"

definition ex_message :: string where
  "ex_message = ''check owner/name using '' @ [backtick] @ ''ls -la'' @ [backtick] @ '' limit=50''"

definition ex_command_message :: string where
  "ex_command_message = ''do '' @ [backtick] @ ''ls'' @ [backtick]"

section \<open>Worker pool (the worker-pool module)\<close>

record BatchResult =
  batchIndex :: nat
  success :: bool
  br_result :: "string option"
  br_error :: "string option"
  duration :: int

subsection \<open>Semaphore\<close>

text \<open>
  The class \<open>Semaphore\<close>. The queue holds the \<open>resolve\<close> callbacks of the suspended
  \<open>acquire\<close> calls; a callback is named by the task that waits on it. \<open>acquire\<close> returns
  whether the slot was granted at once; \<open>release\<close> returns the waiter it has resumed.
\<close>

record Semaphore =
  sem_max :: int
  current :: int
  queue :: "nat list"

definition acquire :: "nat \<Rightarrow> Semaphore \<Rightarrow> Semaphore \<times> bool" where
  "acquire waiter sem =
     (if current sem < sem_max sem then (sem\<lparr>current := current sem + 1\<rparr>, True)
      else (sem\<lparr>queue := queue sem @ [waiter]\<rparr>, False))"

definition release :: "Semaphore \<Rightarrow> Semaphore \<times> nat option" where
  "release sem =
     (let sem1 = sem\<lparr>current := current sem - 1\<rparr>
      in case queue sem1 of
           [] \<Rightarrow> (sem1, None)
         | next # rest \<Rightarrow> (sem1\<lparr>queue := rest, current := current sem1 + 1\<rparr>, Some next))"

subsection \<open>State of a running pool\<close>

text \<open>
  The fields of \<open>WorkerPoolOptions\<close> that steer the pool: \<open>options.config.concurrency\<close>
  (a natural number when present) and the optional callback. The callback is given the
  batch result and the snapshot \<open>{completed, total, failed}\<close>; it returns or it throws, and
  it does not modify what it is given.

  The agent is external: a call of \<open>invokeAgent\<close> is fulfilled with a string or rejected
  with an error that carries a message, and which of the two is up to the environment.
  The prompt of a batch (\<open>renderBatchPrompt\<close>) is computed once before the retry loop and
  only handed to the agent, so it is not part of the state; neither are the log lines
  and the telemetry events.
\<close>

record WorkerPoolOptions =
  concurrency :: "nat option"
  onBatchComplete :: "(BatchResult \<Rightarrow> nat \<times> nat \<times> nat \<Rightarrow> unit settled) option"

text \<open>
  \<open>processAllBatches\<close> starts one asynchronous task per batch. A task runs until its next
  \<open>await\<close> without interruption; \<open>task_pc\<close> says at which \<open>await\<close> a task is suspended
  (or that it has ended), \<open>Sleeping k\<close> and \<open>Invoking k\<close> being the backoff timer and the
  agent call of attempt \<open>k\<close>. The task record holds the local variables that live
  across an \<open>await\<close>.
\<close>

datatype task_pc = Waiting | Granted | Sleeping nat | Invoking nat | Finished | Threw string

record task =
  pc :: task_pc
  task_start :: int
  lastError :: "string option"

text \<open>What a task asks of the outside world: an agent invocation, a timer.\<close>

datatype effect = InvokeAgent nat nat | Sleep nat nat

record pool =
  batches :: "SwarmBatch list"
  results :: "BatchResult option list"
  completed :: nat
  failed :: nat
  semaphore :: Semaphore
  tasks :: "task list"
  trace :: "effect list"

text \<open>
  \<open>results[i] = v\<close> on a JavaScript array: a write past the end extends the array and
  leaves holes.
\<close>

definition array_set :: "'a option list \<Rightarrow> nat \<Rightarrow> 'a \<Rightarrow> 'a option list" where
  "array_set xs i v =
     (if i < length xs then xs[i := Some v]
      else xs @ replicate (i - length xs) None @ [Some v])"

definition effective_concurrency :: "WorkerPoolOptions \<Rightarrow> nat" where
  "effective_concurrency options =
     (case concurrency options of
        None \<Rightarrow> default_concurrency
      | Some c \<Rightarrow> if c = 0 then default_concurrency else c)"

subsection \<open>Starting the pool\<close>

text \<open>
  \<open>batches.map(async (batch) => ...)\<close> runs each callback up to its
  \<open>await semaphore.acquire()\<close>, in array order.
\<close>

definition spawn :: "nat \<Rightarrow> pool \<Rightarrow> pool" where
  "spawn i p =
     (let (sem', granted) = acquire i (semaphore p)
      in p\<lparr>semaphore := sem',
            tasks := tasks p @ [\<lparr>pc = (if granted then Granted else Waiting),
                                  task_start = 0, lastError = None\<rparr>]\<rparr>)"

definition start_pool :: "WorkerPoolOptions \<Rightarrow> SwarmBatch list \<Rightarrow> pool" where
  "start_pool options bs =
     fold spawn [0..<length bs]
       \<lparr>batches = bs, results = replicate (length bs) None, completed = 0, failed = 0,
        semaphore = \<lparr>sem_max = int (effective_concurrency options), current = 0, queue = []\<rparr>,
        tasks = [], trace = []\<rparr>"

subsection \<open>The segments of a task between two awaits\<close>

text \<open>The agent call of attempt \<open>k\<close>: the task now awaits \<open>invokeAgent\<close>.\<close>

definition call_agent :: "nat \<Rightarrow> nat \<Rightarrow> pool \<Rightarrow> pool" where
  "call_agent i k p =
     p\<lparr>tasks := (tasks p)[i := (tasks p ! i)\<lparr>pc := Invoking k\<rparr>],
       trace := trace p @ [InvokeAgent i k]\<rparr>"

text \<open>
  After \<open>await semaphore.acquire()\<close>: the batch is marked as processing and the loop
  starts with attempt 0, which does not sleep.
\<close>

definition begin_batch :: "nat \<Rightarrow> int \<Rightarrow> pool \<Rightarrow> pool" where
  "begin_batch i now p =
     call_agent i 0
       (p\<lparr>batches := (batches p)[i := (batches p ! i)\<lparr>status := Processing,
                                                        startTime := Some now\<rparr>],
          tasks := (tasks p)[i := (tasks p ! i)\<lparr>task_start := now\<rparr>]\<rparr>)"

text \<open>
  The code after the retry loop, up to the end of the task: the batch and the counters
  are updated, the result is stored at \<open>batch.index\<close>, the callback is called, and the
  slot is released. A callback that throws ends the task at once, with a rejection
  (\<open>throw\<close>): nothing after the call runs.
\<close>

definition record_result ::
  "nat \<Rightarrow> bool \<Rightarrow> string option \<Rightarrow> string option \<Rightarrow> int \<Rightarrow> pool \<Rightarrow> BatchResult \<times> pool" where
  "record_result i succ res lastErr now p =
     (let batch = batches p ! i;
          batchResult = \<lparr>batchIndex = index batch, success = succ,
                          br_result = (if succ then res else None),
                          br_error = (if succ then None else lastErr),
                          duration = now - task_start (tasks p ! i)\<rparr>;
          batch' = (if succ then batch\<lparr>endTime := Some now, status := Completed, result := res\<rparr>
                    else batch\<lparr>endTime := Some now, status := Failed, error := lastErr\<rparr>)
      in (batchResult,
          p\<lparr>batches := (batches p)[i := batch'],
            completed := (if succ then completed p + 1 else completed p),
            failed := (if succ then failed p else failed p + 1),
            results := array_set (results p) (index batch) batchResult\<rparr>))"

definition release_slot :: "nat \<Rightarrow> pool \<Rightarrow> pool" where
  "release_slot i p =
     (let (sem', woken) = release (semaphore p);
          ts = (tasks p)[i := (tasks p ! i)\<lparr>pc := Finished\<rparr>]
      in p\<lparr>semaphore := sem',
            tasks := (case woken of
                        None \<Rightarrow> ts
                      | Some w \<Rightarrow> ts[w := (ts ! w)\<lparr>pc := Granted\<rparr>])\<rparr>)"

definition call_back ::
  "WorkerPoolOptions \<Rightarrow> BatchResult \<Rightarrow> nat \<times> nat \<times> nat \<Rightarrow> unit settled" where
  "call_back options batchResult progress =
     (case onBatchComplete options of
        None \<Rightarrow> Fulfilled ()
      | Some callback \<Rightarrow> callback batchResult progress)"

definition throw :: "nat \<Rightarrow> string \<Rightarrow> pool \<Rightarrow> pool" where
  "throw i e p = p\<lparr>tasks := (tasks p)[i := (tasks p ! i)\<lparr>pc := Threw e\<rparr>]\<rparr>"

definition finish_batch ::
  "WorkerPoolOptions \<Rightarrow> nat \<Rightarrow> bool \<Rightarrow> string option \<Rightarrow> string option \<Rightarrow> int \<Rightarrow> pool \<Rightarrow> pool" where
  "finish_batch options i succ res lastErr now p =
     (let (batchResult, p1) = record_result i succ res lastErr now p
      in case call_back options batchResult (completed p1, length (batches p1), failed p1) of
           Rejected e \<Rightarrow> throw i e p1
         | Fulfilled u \<Rightarrow> release_slot i p1)"

text \<open>
  The \<open>catch\<close> block of attempt \<open>k\<close> (\<open>note_failure\<close>) and the loop header: the error
  message is kept, \<open>batch.retries\<close> becomes \<open>k + 1\<close>, and either the next attempt starts
  with its backoff of \<open>2000 * 2 ^ (attempt - 1)\<close> ms, or the loop ends without success.
\<close>

definition note_failure :: "nat \<Rightarrow> nat \<Rightarrow> string \<Rightarrow> pool \<Rightarrow> pool" where
  "note_failure i k e p =
     p\<lparr>batches := (batches p)[i := (batches p ! i)\<lparr>retries := k + 1\<rparr>],
       tasks := (tasks p)[i := (tasks p ! i)\<lparr>lastError := Some e\<rparr>]\<rparr>"

definition backoff :: "nat \<Rightarrow> nat \<Rightarrow> pool \<Rightarrow> pool" where
  "backoff i attempt p =
     p\<lparr>tasks := (tasks p)[i := (tasks p ! i)\<lparr>pc := Sleeping attempt\<rparr>],
       trace := trace p @ [Sleep i (2000 * 2 ^ (attempt - 1))]\<rparr>"

definition attempt_failed ::
  "WorkerPoolOptions \<Rightarrow> nat \<Rightarrow> nat \<Rightarrow> string \<Rightarrow> int \<Rightarrow> pool \<Rightarrow> pool" where
  "attempt_failed options i k e now p =
     (let p1 = note_failure i k e p;
          attempt = k + 1
      in if attempt \<le> max_retries then backoff i attempt p1
         else finish_batch options i False None (Some e) now p1)"

subsection \<open>Events and runs\<close>

text \<open>
  What resumes a suspended task: the continuation of a granted \<open>acquire\<close> runs
  (\<open>Resume\<close>, at time \<open>now\<close>), a backoff timer fires, or the agent call settles (at time
  \<open>now\<close>). The order of the events and the outcome of every agent call are chosen by
  the environment. An event that does not match the state of its task is not enabled.
\<close>

datatype event = Resume nat int | TimerFires nat | AgentSettles nat "string settled" int

definition step :: "WorkerPoolOptions \<Rightarrow> event \<Rightarrow> pool \<Rightarrow> pool option" where
  "step options ev p =
     (case ev of
        Resume i now \<Rightarrow>
          if i < length (tasks p) \<and> pc (tasks p ! i) = Granted
          then Some (begin_batch i now p) else None
      | TimerFires i \<Rightarrow>
          if i < length (tasks p)
          then (case pc (tasks p ! i) of
                  Sleeping k \<Rightarrow> Some (call_agent i k p)
                | _ \<Rightarrow> None)
          else None
      | AgentSettles i outcome now \<Rightarrow>
          if i < length (tasks p)
          then (case pc (tasks p ! i) of
                  Invoking k \<Rightarrow>
                    (case outcome of
                       Fulfilled r \<Rightarrow>
                         Some (finish_batch options i True (Some r)
                                 (lastError (tasks p ! i)) now p)
                     | Rejected e \<Rightarrow> Some (attempt_failed options i k e now p))
                | _ \<Rightarrow> None)
          else None)"

fun run :: "WorkerPoolOptions \<Rightarrow> event list \<Rightarrow> pool \<Rightarrow> pool option" where
  "run options [] p = Some p"
| "run options (ev # evs) p =
     (case step options ev p of
        None \<Rightarrow> None
      | Some p' \<Rightarrow> run options evs p')"

text \<open>
  \<open>await Promise.all(batchPromises)\<close> and \<open>return results\<close>: the promise of
  \<open>processAllBatches\<close> is rejected once a task has been rejected, fulfilled with the
  results array once all tasks have ended normally, and pending (\<open>None\<close>) otherwise.
\<close>

definition threw :: "task \<Rightarrow> string option" where
  "threw t = (case pc t of Threw e \<Rightarrow> Some e | _ \<Rightarrow> None)"

definition pool_promise :: "pool \<Rightarrow> BatchResult option list settled option" where
  "pool_promise p =
     (case List.map_filter threw (tasks p) of
        e # es \<Rightarrow> Some (Rejected e)
      | [] \<Rightarrow> if list_all (\<lambda>t. pc t = Finished) (tasks p) then Some (Fulfilled (results p))
              else None)"

text \<open>
  \<open>processAllBatches\<close> under a schedule: the state after the events, if all of them
  were enabled in turn.
\<close>

definition processAllBatches ::
  "SwarmBatch list \<Rightarrow> WorkerPoolOptions \<Rightarrow> event list \<Rightarrow> pool option" where
  "processAllBatches bs options evs = run options evs (start_pool options bs)"

subsection \<open>Example inputs for the worker pool\<close>

definition ex_batches :: "SwarmBatch list" where
  "ex_batches =
     [new_batch [''a'', ''b'', ''c'', ''d'', ''e''] 2 0 0,
      new_batch [''a'', ''b'', ''c'', ''d'', ''e''] 2 2 1,
      new_batch [''a'', ''b'', ''c'', ''d'', ''e''] 2 4 2]"

definition ex_pool_options :: WorkerPoolOptions where
  "ex_pool_options = \<lparr>concurrency = Some 2, onBatchComplete = None\<rparr>"

definition throwing_options :: WorkerPoolOptions where
  "throwing_options =
     \<lparr>concurrency = None,
      onBatchComplete = Some (\<lambda>batchResult progress. Rejected ''callback failed'')\<rparr>"

definition ex_events :: "event list" where
  "ex_events =
     [Resume 1 10, Resume 0 11, AgentSettles 1 (Fulfilled ''r1'') 20,
      AgentSettles 0 (Rejected ''e0'') 21, TimerFires 0, Resume 2 25,
      AgentSettles 0 (Rejected ''e1'') 30, AgentSettles 2 (Rejected ''f0'') 31, TimerFires 2,
      AgentSettles 2 (Rejected ''f1'') 32, TimerFires 2, AgentSettles 2 (Rejected ''f2'') 33,
      TimerFires 0, AgentSettles 0 (Fulfilled ''ok'') 50]"

text \<open>
  One slot, a callback that throws, and a schedule on which the agent fails for batch 0
  every time.
\<close>

definition throwing_serial_options :: WorkerPoolOptions where
  "throwing_serial_options =
     \<lparr>concurrency = Some 1,
      onBatchComplete = Some (\<lambda>batchResult progress. Rejected ''callback failed'')\<rparr>"

definition failing_events :: "event list" where
  "failing_events =
     [Resume 0 10, AgentSettles 0 (Rejected ''e0'') 20, TimerFires 0,
      AgentSettles 0 (Rejected ''e1'') 30, TimerFires 0, AgentSettles 0 (Rejected ''e2'') 40]"

section \<open>Notions used to state the properties of the pool\<close>

text \<open>The task record that \<open>spawn\<close> creates, \<open>m\<close> being the number of slots.\<close>

definition new_task :: "nat \<Rightarrow> nat \<Rightarrow> task" where
  "new_task m i = \<lparr>pc = (if i < m then Granted else Waiting), task_start = 0, lastError = None\<rparr>"

text \<open>
  A task holds a slot from the moment \<open>acquire\<close> grants it until the task calls
  \<open>release\<close>; a task that ended by throwing never released its slot.
\<close>

definition holds_slot :: "task_pc \<Rightarrow> bool" where
  "holds_slot c = (case c of Waiting \<Rightarrow> False | Finished \<Rightarrow> False | _ \<Rightarrow> True)"

definition ended :: "task_pc \<Rightarrow> bool" where
  "ended c = (case c of Finished \<Rightarrow> True | Threw e \<Rightarrow> True | _ \<Rightarrow> False)"

definition pcs :: "pool \<Rightarrow> task_pc list" where
  "pcs p = map pc (tasks p)"

text \<open>The moves of one task that leave the semaphore alone.\<close>

definition local_move :: "task_pc \<Rightarrow> task_pc \<Rightarrow> bool" where
  "local_move c c' =
     (case c of
        Granted \<Rightarrow> c' = Invoking 0
      | Sleeping k \<Rightarrow> c' = Invoking k
      | Invoking k \<Rightarrow> (c' = Sleeping (k + 1) \<and> k + 1 \<le> max_retries) \<or> (\<exists>e. c' = Threw e)
      | _ \<Rightarrow> False)"

text \<open>
  The invariant of the gate: the slots in use are the tasks that hold one, they never
  exceed the maximum, the queue holds exactly the waiting tasks, in array order, and
  waiters exist only while all slots are in use.
\<close>

definition gate_inv :: "nat \<Rightarrow> task_pc list \<Rightarrow> Semaphore \<Rightarrow> bool" where
  "gate_inv n cs sem \<longleftrightarrow>
     length cs = n \<and> 0 < sem_max sem \<and>
     current sem = int (length (filter holds_slot cs)) \<and>
     current sem \<le> sem_max sem \<and>
     (queue sem \<noteq> [] \<longrightarrow> current sem = sem_max sem) \<and>
     (\<exists>k\<le>n. queue sem = [k..<n] \<and> (\<forall>j<n. (cs ! j = Waiting) = (k \<le> j))) \<and>
     (\<forall>j<n. \<forall>k. cs ! j = Invoking k \<or> cs ! j = Sleeping k \<longrightarrow> k \<le> max_retries)"

text \<open>
  The invariant of the results array: every entry sits at the position that it names,
  no batch index has been changed, and every task that has ended has stored its entry.
\<close>

definition res_inv :: "SwarmBatch list \<Rightarrow> pool \<Rightarrow> bool" where
  "res_inv bs p \<longleftrightarrow>
     map index (batches p) = map index bs \<and>
     (\<forall>j<length (results p). \<forall>r. results p ! j = Some r \<longrightarrow> batchIndex r = j) \<and>
     length bs \<le> length (results p) \<and>
     ((\<forall>b\<in>set bs. index b < length bs) \<longrightarrow> length (results p) = length bs) \<and>
     (\<forall>i<length bs. ended (pcs p ! i) \<longrightarrow>
        index (bs ! i) < length (results p) \<and> results p ! (index (bs ! i)) \<noteq> None)"

text \<open>
  The invariant of the counters: every ended task has left its batch in a terminal
  status, and the two counters together count the ended tasks.
\<close>

definition term_inv :: "SwarmBatch list \<Rightarrow> pool \<Rightarrow> bool" where
  "term_inv bs p \<longleftrightarrow>
     length (batches p) = length bs \<and>
     (\<forall>i<length bs. ended (pcs p ! i) \<longrightarrow>
        status (batches p ! i) = Completed \<or> status (batches p ! i) = Failed) \<and>
     completed p + failed p = length (filter ended (pcs p))"

text \<open>
  The effects of one task, the agent outcomes that a schedule delivered to it, and the
  effects of a task up to its attempt \<open>k\<close>: every retry is preceded by its backoff.
\<close>

definition effect_task :: "effect \<Rightarrow> nat" where
  "effect_task e = (case e of InvokeAgent i k \<Rightarrow> i | Sleep i ms \<Rightarrow> i)"

definition is_invoke :: "effect \<Rightarrow> bool" where
  "is_invoke e = (case e of InvokeAgent i k \<Rightarrow> True | Sleep i ms \<Rightarrow> False)"

definition task_trace :: "nat \<Rightarrow> pool \<Rightarrow> effect list" where
  "task_trace i p = filter (\<lambda>e. effect_task e = i) (trace p)"

definition settled_for :: "nat \<Rightarrow> event \<Rightarrow> string settled option" where
  "settled_for i ev =
     (case ev of AgentSettles j outcome now \<Rightarrow> if j = i then Some outcome else None
               | _ \<Rightarrow> None)"

definition outcomes :: "nat \<Rightarrow> event list \<Rightarrow> string settled list" where
  "outcomes i evs = List.map_filter (settled_for i) evs"

fun attempts_upto :: "nat \<Rightarrow> nat \<Rightarrow> effect list" where
  "attempts_upto i 0 = [InvokeAgent i 0]"
| "attempts_upto i (Suc k) = attempts_upto i k @ [Sleep i (2000 * 2 ^ k), InvokeAgent i (Suc k)]"

definition errs :: "pool \<Rightarrow> string option list" where
  "errs p = map lastError (tasks p)"

text \<open>
  What holds of a task that has ended, after its last attempt \<open>k\<close>: either the last
  outcome was a success after \<open>k\<close> rejections, or all \<open>max_retries + 1\<close> outcomes were
  rejections.
\<close>

definition done_inv :: "nat \<Rightarrow> string settled list \<Rightarrow> SwarmBatch \<Rightarrow> effect list \<Rightarrow> bool" where
  "done_inv i os b tt \<longleftrightarrow>
     (\<exists>k\<le>max_retries. tt = attempts_upto i k \<and> length os = Suc k \<and>
        ((\<exists>es r. os = map Rejected es @ [Fulfilled r] \<and> status b = Completed \<and>
                  result b = Some r \<and> (0 < k \<longrightarrow> retries b = k)) \<or>
         (\<exists>es. os = map Rejected es \<and> k = max_retries \<and> status b = Failed \<and>
               error b = Some (last es) \<and> retries b = Suc max_retries)))"

definition task_inv ::
  "nat \<Rightarrow> string settled list \<Rightarrow> task_pc \<Rightarrow> string option \<Rightarrow> SwarmBatch \<Rightarrow> effect list \<Rightarrow> bool" where
  "task_inv i os c le b tt =
     (case c of
        Waiting \<Rightarrow> os = [] \<and> tt = []
      | Granted \<Rightarrow> os = [] \<and> tt = []
      | Invoking k \<Rightarrow>
          k \<le> max_retries \<and> tt = attempts_upto i k \<and>
          (\<exists>es. os = map Rejected es \<and> length es = k \<and>
                (0 < k \<longrightarrow> retries b = k \<and> le = Some (last es)))
      | Sleeping k \<Rightarrow>
          k \<le> max_retries \<and>
          (\<exists>k'. k = Suc k' \<and> tt = attempts_upto i k' @ [Sleep i (2000 * 2 ^ k')]) \<and>
          (\<exists>es. os = map Rejected es \<and> length es = k \<and> retries b = k \<and> le = Some (last es))
      | Finished \<Rightarrow> done_inv i os b tt
      | Threw e \<Rightarrow> done_inv i os b tt)"

definition tasks_inv :: "nat \<Rightarrow> event list \<Rightarrow> pool \<Rightarrow> bool" where
  "tasks_inv n evs p \<longleftrightarrow>
     (\<forall>j<n. task_inv j (outcomes j evs) (pcs p ! j) (errs p ! j) (batches p ! j)
               (task_trace j p))"

text \<open>The number of events that a task can still take part in.\<close>

definition weight :: "task_pc \<Rightarrow> nat" where
  "weight c =
     (case c of
        Waiting \<Rightarrow> 6
      | Granted \<Rightarrow> 6
      | Invoking k \<Rightarrow> 5 - 2 * k
      | Sleeping k \<Rightarrow> 6 - 2 * k
      | Finished \<Rightarrow> 0
      | Threw e \<Rightarrow> 0)"

text \<open>
  A task that an event can resume is suspended after a granted \<open>acquire\<close>, at a backoff
  timer or at an agent call. A pool is quiescent when it has no such task: then no
  event is enabled and the state stays as it is.
\<close>

definition resumable :: "task_pc \<Rightarrow> bool" where
  "resumable c = (case c of Granted \<Rightarrow> True | Sleeping k \<Rightarrow> True | Invoking k \<Rightarrow> True
                          | _ \<Rightarrow> False)"

definition quiescent :: "pool \<Rightarrow> bool" where
  "quiescent p = list_all (\<lambda>c. \<not> resumable c) (pcs p)"

section \<open>Verification: batch splitter\<close>

lemma ceil_step:
  assumes "0 < (sz::nat)" "0 < n"
  shows "(n + sz - 1) div sz = Suc ((n - sz + sz - 1) div sz)"
proof (cases "sz \<le> n")
  case True
  define m where "m = n - sz + sz - 1"
  have "n + sz - 1 = m + sz"
    using True assms by (simp add: m_def)
  then have "(n + sz - 1) div sz = (m + sz) div sz"
    by (rule arg_cong)
  also have "\<dots> = Suc (m div sz)"
    using assms by simp
  finally show ?thesis by (simp only: m_def)
next
  case False
  then have "n - sz + sz - 1 < sz" using assms by simp
  then have z: "(n - sz + sz - 1) div sz = 0" by simp
  have "sz * 1 \<le> n + sz - 1" "n + sz - 1 < sz * Suc 1"
    using False assms by simp_all
  then have "(n + sz - 1) div sz = 1" by (rule div_nat_eqI)
  with z show ?thesis by simp
qed

lemma split_loop_total:
  assumes "0 < sz"
  shows "\<exists>out. split_loop its sz i bs = Some out \<and>
           length out = length bs + (length its - i + sz - 1) div sz \<and>
           take (length bs) out = bs \<and>
           (\<forall>k. length bs \<le> k \<and> k < length out \<longrightarrow>
              out ! k = new_batch its sz (i + (k - length bs) * sz) k)"
  using assms
proof (induction "length its - i" arbitrary: i bs rule: less_induct)
  case less
  show ?case
  proof (cases "i < length its")
    case False
    then have "split_loop its sz i bs = Some bs"
      by (subst split_loop.simps) simp
    moreover from False less.prems have "(length its - i + sz - 1) div sz = 0"
      by simp
    ultimately show ?thesis by auto
  next
    case True
    let ?b = "new_batch its sz i (length bs)"
    have unf: "split_loop its sz i bs = split_loop its sz (i + sz) (bs @ [?b])"
      using True by (subst split_loop.simps) simp
    have dec: "length its - (i + sz) < length its - i"
      using True less.prems by simp
    from less.hyps[OF dec less.prems, of "bs @ [?b]"]
    obtain out where out: "split_loop its sz (i + sz) (bs @ [?b]) = Some out"
      and len: "length out = Suc (length bs) + (length its - (i + sz) + sz - 1) div sz"
      and tk: "take (Suc (length bs)) out = bs @ [?b]"
      and nth: "\<forall>k. Suc (length bs) \<le> k \<and> k < length out \<longrightarrow>
              out ! k = new_batch its sz (i + sz + (k - Suc (length bs)) * sz) k"
      by auto
    have cnt: "(length its - i + sz - 1) div sz = Suc ((length its - (i + sz) + sz - 1) div sz)"
    proof -
      have "0 < length its - i" using True by simp
      from ceil_step[OF less.prems this]
      have "(length its - i + sz - 1) div sz = Suc ((length its - i - sz + sz - 1) div sz)" .
      moreover have "length its - i - sz = length its - (i + sz)" by simp
      ultimately show ?thesis by simp
    qed
    have tk': "take (length bs) out = bs"
    proof -
      have "take (length bs) out = take (length bs) (take (Suc (length bs)) out)"
        by (simp add: min_def)
      then show ?thesis by (simp add: tk)
    qed
    have at: "out ! length bs = ?b"
    proof -
      have "length bs < length out" using len by simp
      then have "out ! length bs = take (Suc (length bs)) out ! length bs"
        by simp
      then show ?thesis by (simp add: tk)
    qed
    have nth': "out ! k = new_batch its sz (i + (k - length bs) * sz) k"
      if k: "length bs \<le> k" "k < length out" for k
    proof (cases "k = length bs")
      case True
      then show ?thesis using at by simp
    next
      case False
      then have k2: "Suc (length bs) \<le> k" using k by simp
      then obtain d where d: "k = Suc (length bs) + d"
        using le_Suc_ex by blast
      have eq: "i + sz + (k - Suc (length bs)) * sz = i + (k - length bs) * sz"
        by (simp add: d)
      from nth k2 k have "out ! k = new_batch its sz (i + sz + (k - Suc (length bs)) * sz) k"
        by blast
      then show ?thesis by (simp only: eq)
    qed
    show ?thesis
      using unf out len cnt tk' nth' by simp
  qed
qed

lemma concat_slices:
  "concat (map (\<lambda>k. slice xs (k * sz) (k * sz + sz)) [0..<n]) = take (n * sz) xs"
proof (induction n)
  case 0
  show ?case by simp
next
  case (Suc n)
  have "take (Suc n * sz) xs = take (n * sz) xs @ take sz (drop (n * sz) xs)"
    by (simp add: take_add add.commute[of sz])
  with Suc show ?case by (simp add: slice_def)
qed

lemma ceil_div_nat:
  assumes "0 < (b::nat)"
  shows "\<lceil>real a / real b\<rceil> = int ((a + b - 1) div b)"
proof (rule ceiling_unique)
  let ?q = "(a + b - 1) div b"
  have rb: "0 < real b" using assms by simp
  have "?q * b \<le> a + b - 1" by simp
  then have "?q * b < a + b" using assms by linarith
  then have "real (?q * b) < real (a + b)" by (simp only: of_nat_less_iff)
  then have "(real ?q - 1) * real b < real a" by (simp add: algebra_simps)
  then show "of_int (int ?q) - 1 < real a / real b"
    using rb by (simp add: pos_less_divide_eq)
  have "a + b - 1 = ?q * b + (a + b - 1) mod b" by simp
  moreover have "(a + b - 1) mod b < b" using assms by simp
  ultimately have "a + b - 1 < ?q * b + b" by linarith
  then have "a \<le> ?q * b" using assms by linarith
  then have "real a \<le> real (?q * b)" by (simp only: of_nat_le_iff)
  then show "real a / real b \<le> of_int (int ?q)"
    using rb by (simp add: pos_divide_le_eq)
qed

lemma batch_count_bounds:
  assumes "0 < (sz::nat)" "Suc k < (L + sz - 1) div sz"
  shows "k * sz + sz \<le> L"
proof -
  from assms(2) have "Suc (Suc k) \<le> (L + sz - 1) div sz" by simp
  then have "Suc (Suc k) * sz \<le> L + sz - 1"
    using assms(1) by (simp only: less_eq_div_iff_mult_less_eq)
  then show ?thesis using assms(1) by simp
qed

text \<open>
  Claim C1 (split completeness). For a non-empty item list of length \<open>L\<close> and a batch
  size \<open>B \<ge> 1\<close>, \<open>splitIntoBatches\<close> returns, and returns exactly \<open>\<lceil>L / B\<rceil>\<close> batches;
  batch \<open>k\<close> carries index \<open>k\<close>, status \<open>pending\<close> and \<open>retries = 0\<close>; every batch holds at
  most \<open>B\<close> items and every batch but the last exactly \<open>B\<close>; the batches' items,
  concatenated in index order, are the original list.
\<close>

theorem splitIntoBatches_complete:
  assumes "its \<noteq> []" "1 \<le> B"
  shows "\<exists>bs. splitIntoBatches its B = Some bs \<and>
           int (length bs) = \<lceil>real (length its) / real B\<rceil> \<and>
           (\<forall>k<length bs.
              index (bs ! k) = k \<and> status (bs ! k) = Pending \<and> retries (bs ! k) = 0 \<and>
              length (items (bs ! k)) \<le> B \<and>
              (Suc k < length bs \<longrightarrow> length (items (bs ! k)) = B)) \<and>
           concat (map items bs) = its"
proof -
  have B: "0 < B" using assms(2) by simp
  from split_loop_total[OF B, of its 0 "[]"]
  obtain out where out: "split_loop its B 0 [] = Some out"
    and len: "length out = (length its + B - 1) div B"
    and nth: "\<And>k. k < length out \<Longrightarrow> out ! k = new_batch its B (k * B) k"
    by auto
  have run: "splitIntoBatches its B = Some out"
    using B out by (simp add: splitIntoBatches_def)
  have cnt: "int (length out) = \<lceil>real (length its) / real B\<rceil>"
    using ceil_div_nat[OF B, of "length its"] len by simp
  have fields: "index (out ! k) = k \<and> status (out ! k) = Pending \<and> retries (out ! k) = 0 \<and>
          length (items (out ! k)) \<le> B \<and>
          (Suc k < length out \<longrightarrow> length (items (out ! k)) = B)"
    if k: "k < length out" for k
  proof -
    have full: "length (items (out ! k)) = B" if "Suc k < length out"
    proof -
      from that len have "k * B + B \<le> length its"
        using batch_count_bounds[OF B] by simp
      then show ?thesis
        using nth[OF k] by (simp add: new_batch_def slice_def)
    qed
    then show ?thesis
      using nth[OF k] by (simp add: new_batch_def slice_def)
  qed
  have its_eq: "map items out = map (\<lambda>k. slice its (k * B) (k * B + B)) [0..<length out]"
    by (rule nth_equalityI) (simp_all add: nth new_batch_def)
  have "length its \<le> length out * B"
  proof (rule ccontr)
    assume "\<not> length its \<le> length out * B"
    then have "length out * B + B \<le> length its + B - 1" by simp
    then have "Suc (length out) * B \<le> length its + B - 1" by simp
    then have "Suc (length out) \<le> (length its + B - 1) div B"
      using B by (simp only: less_eq_div_iff_mult_less_eq)
    then show False using len by simp
  qed
  then have cat: "concat (map items out) = its"
    by (simp only: its_eq concat_slices) simp
  show ?thesis
    using run cnt fields cat by blast
qed

theorem splitIntoBatches_complete_witness:
  "[''a'', ''b'', ''c''] \<noteq> [] \<and> (1::nat) \<le> 2 \<and>
   (\<exists>bs. splitIntoBatches [''a'', ''b'', ''c''] 2 = Some bs \<and>
      int (length bs) = \<lceil>real (length [''a'', ''b'', ''c'']) / real (2::nat)\<rceil> \<and>
      (\<forall>k<length bs.
          index (bs ! k) = k \<and> status (bs ! k) = Pending \<and> retries (bs ! k) = 0 \<and>
          length (items (bs ! k)) \<le> 2 \<and>
          (Suc k < length bs \<longrightarrow> length (items (bs ! k)) = 2)) \<and>
      concat (map items bs) = [''a'', ''b'', ''c''])"
proof -
  have h1: "[''a'', ''b'', ''c''] \<noteq> []" by simp
  have h2: "(1::nat) \<le> 2" by simp
  from splitIntoBatches_complete[OF h1 h2] h1 h2 show ?thesis by blast
qed

lemma splitIntoBatches_example:
  "map_option (map items) (splitIntoBatches [''a'', ''b'', ''c''] 2) = Some [[''a'', ''b''], [''c'']]"
  by code_simp

section \<open>Verification: template resolver\<close>

text \<open>The matchers on the examples of the specification.\<close>

lemma resolve_examples:
  "resolveTemplateParams ''no placeholder here'' ''limit=50 in owner/repo'' = ''no placeholder here''"
  "resolveTemplateParams ''cmd --repo {{repo}}'' ''review owner/repo please'' = ''cmd --repo owner/repo''"
  "resolveTemplateParams ''{{limit}}'' ''limit=50 but also 9999'' = ''50''"
  "resolveTemplateParams ''{{limit}}'' ''but also 9999'' = ''9999''"
  "resolveTemplateParams ''{{repo}} {{mode}}'' ''in owner/repo'' = ''owner/repo {{mode}}''"
  by code_simp+

text \<open>
  The short circuit as the code has it: the loop returns the backtick substring at the
  first parameter for which the lookup in \<open>kvMap\<close> is falsy and the heuristic for its
  name finds nothing, whatever parameters follow and whatever has been substituted.
\<close>

lemma resolve_loop_shortcut:
  assumes "p \<in> set params"
      and "\<not> truthy (get_property kvMap (toLowerCase p))"
      and "(if p = ''repo'' then repo_scan None message else None) = None"
      and "(if p = ''limit'' then num_scan None message else None) = None"
      and "backtick_scan message = Some b"
  shows "resolve_loop kvMap message params resolved = b"
  using assms(1)
proof (induction params arbitrary: resolved)
  case Nil
  then show ?case by simp
next
  case (Cons q qs)
  show ?case
  proof (cases "q = p")
    case True
    with assms(2-5) show ?thesis by simp
  next
    case False
    with Cons.prems have "p \<in> set qs" by simp
    then have ih: "resolve_loop kvMap message qs r = b" for r
      by (rule Cons.IH)
    show ?thesis
      using assms(5) by (simp add: ih split: option.splits)
  qed
qed

lemma resolveTemplateParams_shortcut:
  assumes "p \<in> set (param_scan template)"
      and "\<not> truthy (get_property (kv_scan message Map.empty) (toLowerCase p))"
      and "(if p = ''repo'' then repo_scan None message else None) = None"
      and "(if p = ''limit'' then num_scan None message else None) = None"
      and "backtick_scan message = Some b"
  shows "resolveTemplateParams template message = b"
proof -
  from assms(1) have "param_scan template \<noteq> []" by auto
  then show ?thesis
    using resolve_loop_shortcut[of p "param_scan template" "kv_scan message Map.empty"
            message b template, OF assms]
    by (simp add: resolveTemplateParams_def Let_def)
qed

lemma resolveTemplateParams_shortcut_example:
  "param_scan ex_template = [''repo'', ''mode'', ''limit'']"
  "get_property (kv_scan ex_message Map.empty) ''mode'' = Undefined"
  "backtick_scan ex_message = Some ''ls -la''"
  "resolveTemplateParams ex_template ex_message = ''ls -la''"
  by code_simp+

text \<open>
  A name that \<open>kvMap\<close> inherits is never falsy: the lookup of \<open>constructor\<close> or
  \<open>__proto__\<close> finds the inherited object when the free text has no pair for it, the
  loop takes the \<open>name=value\<close> branch, and the backtick pattern is not tried.
\<close>

lemma inherited_truthy:
  assumes "key = ''constructor'' \<or> key = ''__proto__''" and "kvMap key = None"
  shows "truthy (get_property kvMap key)"
  using assms by (auto simp: get_property_def truthy_def)

text \<open>
  Claim C6 fails on the code. The template \<open>run {{constructor}}\<close> has the one parameter
  \<open>constructor\<close>; the free text \<open>do `ls`\<close> has no \<open>name=value\<close> token, the name is neither
  \<open>repo\<close> nor \<open>limit\<close>, and the backtick pattern matches \<open>ls\<close>. The claim's output is
  \<open>ls\<close>; the code returns the template as it is. For \<open>{{__proto__}}\<close> it returns the
  template with \<open>[object Object]\<close> in the place of the parameter. For a name that
  \<open>kvMap\<close> does not inherit, the same free text does give \<open>ls\<close>.
\<close>

theorem resolveTemplateParams_inherited_key:
  "param_scan ''run {{constructor}}'' = [''constructor''] \<and>
   kv_scan ex_command_message Map.empty = Map.empty \<and>
   backtick_scan ex_command_message = Some ''ls'' \<and>
   resolveTemplateParams ''run {{constructor}}'' ex_command_message = ''run {{constructor}}'' \<and>
   resolveTemplateParams ''run {{__proto__}}'' ex_command_message = ''run [object Object]'' \<and>
   resolveTemplateParams ''run {{command}}'' ex_command_message = ''ls''"
proof (intro conjI)
  show "kv_scan ex_command_message Map.empty = Map.empty"
    by (simp add: ex_command_message_def backtick_def kv_scan.simps match_kv_def is_word_def)
qed code_simp+

section \<open>Verification: reduce prompts\<close>

lemma group_context_example:
  "group_context 2 0 1 3 =
     ''The following are results from group 2 of 3 (reduction level 1), containing 2 batch results.''"
  by code_simp

lemma top_context_example:
  "top_context 1 = ''The following are results from processing 1 batch(es) of a large-scale task.''"
  by code_simp

text \<open>
  Claim C9, as amended. A reduce prompt is, in this order: with a configured
  (non-empty) custom prompt, the custom prompt and then the context sentence; without
  one, the context sentence and then the default synthesis instruction; then
  \<open>Original task: <task>\<close>; then the divider \<open>---\<close>; then the combined content. The parts
  are separated by blank lines. The context sentence is the group-level one exactly
  when level, group index and group count are all given (it prints group index + 1
  and level + 1), and the top-level one otherwise.
\<close>

theorem buildReducePrompt_layout:
  fixes options :: ReduceOptions
  defines "ctx \<equiv> (\<lambda>n level groupIndex totalGroups.
             case (level, groupIndex, totalGroups) of
               (Some l, Some g, Some t) \<Rightarrow> group_context n l g t
             | _ \<Rightarrow> top_context n)"
  defines "tail \<equiv> (\<lambda>combined. nl @ nl @ ''Original task: '' @ userMessage options @
             nl @ nl @ ''---'' @ nl @ nl @ combined)"
  shows "(\<forall>p. reduce_prompt options = Some p \<and> p \<noteq> [] \<longrightarrow>
            buildReducePrompt combined n options level groupIndex totalGroups =
              p @ nl @ nl @ ctx n level groupIndex totalGroups @ tail combined) \<and>
         (reduce_prompt options = None \<or> reduce_prompt options = Some [] \<longrightarrow>
            buildReducePrompt combined n options level groupIndex totalGroups =
              ctx n level groupIndex totalGroups @ nl @ nl @ default_instruction @ tail combined)"
  by (auto simp: buildReducePrompt_def ctx_def tail_def Let_def)

theorem buildReducePrompt_layout_witness:
  "(reduce_prompt ex_custom_options = Some ''C'' \<and> ''C'' \<noteq> []) \<and>
   buildReducePrompt ''r'' 2 ex_custom_options (Some 0) (Some 1) (Some 3) =
     ''C'' @ nl @ nl @ group_context 2 0 1 3 @
     nl @ nl @ ''Original task: t'' @ nl @ nl @ ''---'' @ nl @ nl @ ''r'' \<and>
   group_context 2 0 1 3 =
     ''The following are results from group 2 of 3 (reduction level 1), containing 2 batch results.'' \<and>
   reduce_prompt ex_options = None \<and>
   buildReducePrompt ''r'' 1 ex_options None None None =
     top_context 1 @ nl @ nl @ default_instruction @
     nl @ nl @ ''Original task: task'' @ nl @ nl @ ''---'' @ nl @ nl @ ''r''"
  using buildReducePrompt_layout[of ex_custom_options "''r''" 2 "Some 0" "Some 1" "Some 3"]
        buildReducePrompt_layout[of ex_options "''r''" 1 None None None]
        group_context_example
  by (simp add: ex_custom_options_def ex_options_def)

text \<open>
  Claim C9 as stated puts the default instruction before the context sentence. Without
  a custom prompt the prompt starts with the context sentence, and the default
  instruction follows it.
\<close>

theorem buildReducePrompt_default_first_counterexample:
  "buildReducePrompt ''r'' 1 ex_options None None None =
     ''The following are results from processing 1 batch(es) of a large-scale task.'' @ nl @ nl @
     default_instruction @ nl @ nl @ ''Original task: task'' @ nl @ nl @ ''---'' @ nl @ nl @ ''r'' \<and>
   take (length default_instruction)
     (buildReducePrompt ''r'' 1 ex_options None None None)
     \<noteq> default_instruction"
  by code_simp

section \<open>Verification: worker pool\<close>

subsection \<open>The initial state\<close>

lemma fold_spawn:
  assumes "tasks p = []" "semaphore p = \<lparr>sem_max = int m, current = 0, queue = []\<rparr>"
  shows "fold spawn [0..<n] p =
           p\<lparr>semaphore := \<lparr>sem_max = int m, current = int (min n m), queue = [m..<n]\<rparr>,
             tasks := map (new_task m) [0..<n]\<rparr>"
proof (induction n)
  case 0
  then show ?case using assms by simp
next
  case (Suc n)
  have "fold spawn [0..<Suc n] p = spawn n (fold spawn [0..<n] p)"
    by simp
  also have "\<dots> = spawn n (p\<lparr>semaphore := \<lparr>sem_max = int m, current = int (min n m),
                                                  queue = [m..<n]\<rparr>,
                                   tasks := map (new_task m) [0..<n]\<rparr>)"
    by (simp only: Suc)
  also have "\<dots> = p\<lparr>semaphore := \<lparr>sem_max = int m, current = int (min (Suc n) m),
                                       queue = [m..<Suc n]\<rparr>,
                        tasks := map (new_task m) [0..<Suc n]\<rparr>"
  proof (cases "n < m")
    case True
    then show ?thesis
      by (simp add: spawn_def acquire_def new_task_def min_def)
  next
    case False
    then have "[m..<Suc n] = [m..<n] @ [n]" by simp
    with False show ?thesis
      by (simp add: spawn_def acquire_def new_task_def min_def)
  qed
  finally show ?case .
qed

lemma start_pool_eq:
  "start_pool options bs =
     \<lparr>batches = bs, results = replicate (length bs) None, completed = 0, failed = 0,
      semaphore = \<lparr>sem_max = int (effective_concurrency options),
                   current = int (min (length bs) (effective_concurrency options)),
                   queue = [effective_concurrency options..<length bs]\<rparr>,
      tasks = map (new_task (effective_concurrency options)) [0..<length bs], trace = []\<rparr>"
proof -
  let ?p = "\<lparr>batches = bs, results = replicate (length bs) None, completed = 0, failed = 0,
        semaphore = \<lparr>sem_max = int (effective_concurrency options), current = 0, queue = []\<rparr>,
        tasks = [], trace = []\<rparr>"
  have "fold spawn [0..<length bs] ?p =
          ?p\<lparr>semaphore := \<lparr>sem_max = int (effective_concurrency options),
                              current = int (min (length bs) (effective_concurrency options)),
                              queue = [effective_concurrency options..<length bs]\<rparr>,
             tasks := map (new_task (effective_concurrency options)) [0..<length bs]\<rparr>"
    by (rule fold_spawn) simp_all
  then show ?thesis
    by (simp add: start_pool_def)
qed

lemma effective_concurrency_pos: "0 < effective_concurrency options"
  by (simp add: effective_concurrency_def default_concurrency_def split: option.splits)

subsection \<open>Runs and steps\<close>

lemma run_snoc:
  "run options (evs @ [ev]) p =
     (case run options evs p of None \<Rightarrow> None | Some q \<Rightarrow> step options ev q)"
  by (induction evs arbitrary: p) (auto split: option.splits)

lemma run_induct [consumes 1, case_names start step]:
  assumes "run options evs p0 = Some p"
      and "P [] p0"
      and "\<And>evs q ev q'. run options evs p0 = Some q \<Longrightarrow> P evs q \<Longrightarrow> step options ev q = Some q'
             \<Longrightarrow> P (evs @ [ev]) q'"
  shows "P evs p"
  using assms(1)
proof (induction evs arbitrary: p rule: rev_induct)
  case Nil
  then show ?case using assms(2) by simp
next
  case (snoc ev evs)
  then obtain q where q: "run options evs p0 = Some q" and s: "step options ev q = Some p"
    by (auto simp: run_snoc split: option.splits)
  from assms(3)[OF q snoc.IH[OF q] s] show ?case .
qed

text \<open>The five ways a step changes the state.\<close>

lemma finish_batch_cases:
  obtains (threw) e where
      "finish_batch options i succ res lastErr now p =
         throw i e (snd (record_result i succ res lastErr now p))"
      "call_back options (fst (record_result i succ res lastErr now p))
         (completed (snd (record_result i succ res lastErr now p)),
          length (batches (snd (record_result i succ res lastErr now p))),
          failed (snd (record_result i succ res lastErr now p))) = Rejected e"
  | (released)
      "finish_batch options i succ res lastErr now p =
         release_slot i (snd (record_result i succ res lastErr now p))"
proof -
  obtain br p1 where rr: "record_result i succ res lastErr now p = (br, p1)"
    by (cases "record_result i succ res lastErr now p")
  show ?thesis
  proof (cases "call_back options br (completed p1, length (batches p1), failed p1)")
    case (Fulfilled u)
    with rr show ?thesis
      by (intro released) (simp add: finish_batch_def)
  next
    case (Rejected e)
    with rr show ?thesis
      by (intro threw[of e]) (simp_all add: finish_batch_def)
  qed
qed

lemma step_cases [consumes 1, case_names resume timer retry threw released]:
  assumes "step options ev p = Some p'"
  obtains
    (resume) i now where "ev = Resume i now" "i < length (tasks p)" "pc (tasks p ! i) = Granted"
      "p' = begin_batch i now p"
  | (timer) i k where "ev = TimerFires i" "i < length (tasks p)" "pc (tasks p ! i) = Sleeping k"
      "p' = call_agent i k p"
  | (retry) i k e now where "ev = AgentSettles i (Rejected e) now" "i < length (tasks p)"
      "pc (tasks p ! i) = Invoking k" "k + 1 \<le> max_retries"
      "p' = backoff i (k + 1) (note_failure i k e p)"
  | (threw) i k out now q succ res lastErr e where "ev = AgentSettles i out now"
      "i < length (tasks p)" "pc (tasks p ! i) = Invoking k"
      "(out = Fulfilled (the res) \<and> succ \<and> res \<noteq> None \<and> q = p \<and> lastErr = lastError (tasks p ! i)) \<or>
       (\<exists>m. out = Rejected m \<and> \<not> succ \<and> res = None \<and> lastErr = Some m \<and>
            \<not> k + 1 \<le> max_retries \<and> q = note_failure i k m p)"
      "p' = throw i e (snd (record_result i succ res lastErr now q))"
      "call_back options (fst (record_result i succ res lastErr now q))
         (completed (snd (record_result i succ res lastErr now q)),
          length (batches (snd (record_result i succ res lastErr now q))),
          failed (snd (record_result i succ res lastErr now q))) = Rejected e"
  | (released) i k out now q succ res lastErr where "ev = AgentSettles i out now"
      "i < length (tasks p)" "pc (tasks p ! i) = Invoking k"
      "(out = Fulfilled (the res) \<and> succ \<and> res \<noteq> None \<and> q = p \<and> lastErr = lastError (tasks p ! i)) \<or>
       (\<exists>m. out = Rejected m \<and> \<not> succ \<and> res = None \<and> lastErr = Some m \<and>
            \<not> k + 1 \<le> max_retries \<and> q = note_failure i k m p)"
      "p' = release_slot i (snd (record_result i succ res lastErr now q))"
proof (cases ev)
  case (Resume i now)
  with assms show ?thesis
    by (auto simp: step_def split: if_splits intro: resume)
next
  case (TimerFires i)
  with assms show ?thesis
    by (auto simp: step_def split: if_splits task_pc.splits intro: timer)
next
  case (AgentSettles i out now)
  with assms obtain k where i: "i < length (tasks p)" and k: "pc (tasks p ! i) = Invoking k"
    by (auto simp: step_def split: if_splits task_pc.splits)
  show ?thesis
  proof (cases out)
    case (Fulfilled r)
    with assms AgentSettles i k
    have p': "p' = finish_batch options i True (Some r) (lastError (tasks p ! i)) now p"
      by (simp add: step_def)
    show ?thesis
    proof (cases rule: finish_batch_cases[of options i True "Some r" "lastError (tasks p ! i)" now p])
      case (threw e)
      show ?thesis
        by (rule that(4)[of i out now k "Some r" True p "lastError (tasks p ! i)" e])
           (use AgentSettles i k Fulfilled p' threw in simp_all)
    next
      case released
      show ?thesis
        by (rule that(5)[of i out now k "Some r" True p "lastError (tasks p ! i)"])
           (use AgentSettles i k Fulfilled p' released in simp_all)
    qed
  next
    case (Rejected m)
    with assms AgentSettles i k have p': "p' = attempt_failed options i k m now p"
      by (simp add: step_def)
    show ?thesis
    proof (cases "k + 1 \<le> max_retries")
      case True
      with p' have "p' = backoff i (k + 1) (note_failure i k m p)"
        by (simp add: attempt_failed_def Let_def)
      with AgentSettles Rejected i k True show ?thesis
        by (intro that(3)) simp_all
    next
      case False
      with p' have p'': "p' = finish_batch options i False None (Some m) now (note_failure i k m p)"
        by (simp add: attempt_failed_def Let_def)
      show ?thesis
      proof (cases rule: finish_batch_cases[of options i False None "Some m" now "note_failure i k m p"])
        case (threw e)
        show ?thesis
          by (rule that(4)[of i out now k None False "note_failure i k m p" "Some m" e])
             (use AgentSettles i k Rejected p'' threw False in simp_all)
      next
        case released
        show ?thesis
          by (rule that(5)[of i out now k None False "note_failure i k m p" "Some m"])
             (use AgentSettles i k Rejected p'' released False in simp_all)
      qed
    qed
  qed
qed

subsection \<open>Steps seen on the program counters and the semaphore\<close>

lemma map_update_same: "(map f xs)[i := f (xs ! i)] = map f xs"
  by (metis list_update_id map_update)

lemma pcs_call_agent: "pcs (call_agent i k p) = (pcs p)[i := Invoking k]"
  by (simp add: pcs_def call_agent_def map_update)

lemma pcs_begin_batch: "pcs (begin_batch i now p) = (pcs p)[i := Invoking 0]"
  by (simp add: pcs_def begin_batch_def call_agent_def map_update)

lemma pcs_note_failure: "pcs (note_failure i k e p) = pcs p"
  by (simp add: pcs_def note_failure_def map_update map_update_same)

lemma pcs_backoff: "pcs (backoff i a p) = (pcs p)[i := Sleeping a]"
  by (simp add: pcs_def backoff_def map_update)

lemma pcs_record_result: "pcs (snd (record_result i succ res lastErr now p)) = pcs p"
  by (simp add: pcs_def record_result_def Let_def)

lemma pcs_throw: "pcs (throw i e p) = (pcs p)[i := Threw e]"
  by (simp add: pcs_def throw_def map_update)

lemma pcs_release_slot:
  "pcs (release_slot i p) =
     (case snd (release (semaphore p)) of
        None \<Rightarrow> (pcs p)[i := Finished]
      | Some w \<Rightarrow> (pcs p)[i := Finished, w := Granted])"
  by (simp add: pcs_def release_slot_def Let_def map_update split: prod.splits option.splits)

lemma semaphore_simps:
  "semaphore (call_agent i k p) = semaphore p"
  "semaphore (begin_batch i now p) = semaphore p"
  "semaphore (note_failure i k e p) = semaphore p"
  "semaphore (backoff i a p) = semaphore p"
  "semaphore (snd (record_result i succ res lastErr now p)) = semaphore p"
  "semaphore (throw i e p) = semaphore p"
  "semaphore (release_slot i p) = fst (release (semaphore p))"
  by (simp_all add: call_agent_def begin_batch_def note_failure_def backoff_def
        record_result_def throw_def release_slot_def Let_def split: prod.splits)

lemma step_pcs:
  assumes "step options ev p = Some p'"
  shows "\<exists>i<length (pcs p).
           (\<exists>c'. local_move (pcs p ! i) c' \<and> pcs p' = (pcs p)[i := c'] \<and>
                  semaphore p' = semaphore p) \<or>
           (\<exists>k. pcs p ! i = Invoking k \<and> semaphore p' = fst (release (semaphore p)) \<and>
                 pcs p' = (case snd (release (semaphore p)) of
                             None \<Rightarrow> (pcs p)[i := Finished]
                           | Some w \<Rightarrow> (pcs p)[i := Finished, w := Granted]))"
  using assms
proof (cases rule: step_cases)
  case (resume i now)
  then have "i < length (pcs p)" "local_move (pcs p ! i) (Invoking 0)"
    "pcs p' = (pcs p)[i := Invoking 0]" "semaphore p' = semaphore p"
    by (simp_all add: pcs_begin_batch semaphore_simps local_move_def) (simp_all add: pcs_def)
  then show ?thesis by blast
next
  case (timer i k)
  then have "i < length (pcs p)" "local_move (pcs p ! i) (Invoking k)"
    "pcs p' = (pcs p)[i := Invoking k]" "semaphore p' = semaphore p"
    by (simp_all add: pcs_call_agent semaphore_simps local_move_def) (simp_all add: pcs_def)
  then show ?thesis by blast
next
  case (retry i k e now)
  then have "i < length (pcs p)" "local_move (pcs p ! i) (Sleeping (k + 1))"
    "pcs p' = (pcs p)[i := Sleeping (k + 1)]" "semaphore p' = semaphore p"
    by (simp_all add: pcs_backoff pcs_note_failure semaphore_simps local_move_def)
       (simp_all add: pcs_def)
  then show ?thesis by blast
next
  case (threw i k out now q succ res lastErr e)
  then have q: "pcs q = pcs p" "semaphore q = semaphore p"
    by (auto simp: pcs_note_failure semaphore_simps)
  from threw have "i < length (pcs p)" "local_move (pcs p ! i) (Threw e)"
    by (simp_all add: pcs_def local_move_def)
  moreover from threw q have "pcs p' = (pcs p)[i := Threw e]" "semaphore p' = semaphore p"
    by (simp_all add: pcs_throw pcs_record_result semaphore_simps)
  ultimately show ?thesis by blast
next
  case (released i k out now q succ res lastErr)
  then have q: "pcs q = pcs p" "semaphore q = semaphore p"
    by (auto simp: pcs_note_failure semaphore_simps)
  from released have "i < length (pcs p)" "pcs p ! i = Invoking k"
    by (simp_all add: pcs_def)
  moreover from released q have "semaphore p' = fst (release (semaphore p))"
    "pcs p' = (case snd (release (semaphore p)) of
                 None \<Rightarrow> (pcs p)[i := Finished]
               | Some w \<Rightarrow> (pcs p)[i := Finished, w := Granted])"
    by (simp_all add: pcs_release_slot pcs_record_result semaphore_simps split: option.splits)
  ultimately show ?thesis by blast
qed

subsection \<open>The invariant of the gate\<close>

lemma filter_update_count:
  "i < length xs \<Longrightarrow>
     length (filter P (xs[i := y])) + (if P (xs ! i) then 1 else 0) =
     length (filter P xs) + (if P y then 1 else 0)"
proof (induction xs arbitrary: i)
  case Nil
  then show ?case by simp
next
  case (Cons x xs)
  show ?case
  proof (cases i)
    case 0
    then show ?thesis by simp
  next
    case (Suc j)
    with Cons.prems have "j < length xs" by simp
    from Cons.IH[OF this] Suc show ?thesis by simp
  qed
qed

lemma holders_start:
  "length (filter holds_slot (map (\<lambda>i. if i < m then Granted else Waiting) [0..<n])) = min n m"
  by (induction n) (auto simp: holds_slot_def min_def)

lemma pcs_start_pool:
  "pcs (start_pool options bs) =
     map (\<lambda>i. if i < effective_concurrency options then Granted else Waiting) [0..<length bs]"
  by (simp add: pcs_def start_pool_eq new_task_def comp_def)

lemma gate_inv_start:
  "gate_inv (length bs) (pcs (start_pool options bs)) (semaphore (start_pool options bs))"
proof -
  let ?m = "effective_concurrency options" and ?n = "length bs"
  let ?cs = "pcs (start_pool options bs)" and ?sem = "semaphore (start_pool options bs)"
  have sem: "?sem = \<lparr>sem_max = int ?m, current = int (min ?n ?m), queue = [?m..<?n]\<rparr>"
    by (simp add: start_pool_eq)
  have len: "length ?cs = ?n"
    by (simp add: pcs_start_pool)
  have nth: "?cs ! j = (if j < ?m then Granted else Waiting)" if "j < ?n" for j
    using that by (simp add: pcs_start_pool)
  have cnt: "length (filter holds_slot ?cs) = min ?n ?m"
    by (simp only: pcs_start_pool holders_start)
  have q: "\<exists>k\<le>?n. queue ?sem = [k..<?n] \<and> (\<forall>j<?n. (?cs ! j = Waiting) = (k \<le> j))"
  proof (cases "?m \<le> ?n")
    case True
    then show ?thesis by (intro exI[of _ ?m]) (auto simp: sem nth)
  next
    case False
    then show ?thesis by (intro exI[of _ ?n]) (auto simp: sem nth)
  qed
  have b: "\<forall>j<?n. \<forall>k. ?cs ! j = Invoking k \<or> ?cs ! j = Sleeping k \<longrightarrow> k \<le> max_retries"
    by (auto simp: nth)
  show ?thesis
    unfolding gate_inv_def
  proof (intro conjI)
    show "length ?cs = ?n" by (rule len)
    show "0 < sem_max ?sem" using effective_concurrency_pos[of options] by (simp add: sem)
    show "current ?sem = int (length (filter holds_slot ?cs))" by (simp add: sem cnt)
    show "current ?sem \<le> sem_max ?sem" by (simp add: sem)
    show "queue ?sem \<noteq> [] \<longrightarrow> current ?sem = sem_max ?sem" by (simp add: sem)
    show "\<exists>k\<le>?n. queue ?sem = [k..<?n] \<and> (\<forall>j<?n. (?cs ! j = Waiting) = (k \<le> j))" by (rule q)
    show "\<forall>j<?n. \<forall>k. ?cs ! j = Invoking k \<or> ?cs ! j = Sleeping k \<longrightarrow> k \<le> max_retries"
      by (rule b)
  qed
qed

lemma local_move_holds:
  "local_move c c' \<Longrightarrow> holds_slot c \<and> holds_slot c' \<and> c \<noteq> Waiting \<and> c' \<noteq> Waiting"
  by (auto simp: local_move_def holds_slot_def split: task_pc.splits)

lemma local_move_bound:
  "local_move c c' \<Longrightarrow> (\<forall>k. c = Invoking k \<or> c = Sleeping k \<longrightarrow> k \<le> max_retries)
     \<Longrightarrow> c' = Invoking k \<or> c' = Sleeping k \<Longrightarrow> k \<le> max_retries"
  by (auto simp: local_move_def split: task_pc.splits)

lemma gate_inv_local:
  assumes inv: "gate_inv n cs sem" and i: "i < length cs" and mv: "local_move (cs ! i) c'"
  shows "gate_inv n (cs[i := c'])  sem"
proof -
  have n: "length cs = n" using inv unfolding gate_inv_def by blast
  from local_move_holds[OF mv]
  have h: "holds_slot (cs ! i)" "holds_slot c'" "cs ! i \<noteq> Waiting" "c' \<noteq> Waiting" by simp_all
  have cnt: "length (filter holds_slot (cs[i := c'])) = length (filter holds_slot cs)"
    using filter_update_count[OF i, of holds_slot c'] h by simp
  from inv obtain k where k: "k \<le> n" "queue sem = [k..<n]"
    "\<forall>j<n. (cs ! j = Waiting) = (k \<le> j)"
    by (auto simp: gate_inv_def)
  have w: "\<forall>j<n. (cs[i := c'] ! j = Waiting) = (k \<le> j)"
  proof (intro allI impI)
    fix j assume j: "j < n"
    show "(cs[i := c'] ! j = Waiting) = (k \<le> j)"
    proof (cases "j = i")
      case True
      with k(3) j h i show ?thesis by simp
    next
      case False
      with k(3) j show ?thesis by simp
    qed
  qed
  have b: "\<forall>j<n. \<forall>k. cs[i := c'] ! j = Invoking k \<or> cs[i := c'] ! j = Sleeping k \<longrightarrow> k \<le> max_retries"
  proof (intro allI impI)
    fix j k' assume j: "j < n" and c: "cs[i := c'] ! j = Invoking k' \<or> cs[i := c'] ! j = Sleeping k'"
    from inv j have old: "\<forall>k. cs ! j = Invoking k \<or> cs ! j = Sleeping k \<longrightarrow> k \<le> max_retries"
      by (simp add: gate_inv_def)
    show "k' \<le> max_retries"
    proof (cases "j = i")
      case True
      with c i have "c' = Invoking k' \<or> c' = Sleeping k'" by simp
      with local_move_bound[OF mv] old True show ?thesis by blast
    next
      case False
      with c have "cs ! j = Invoking k' \<or> cs ! j = Sleeping k'" by simp
      with old show ?thesis by blast
    qed
  qed
  have rest: "0 < sem_max sem" "current sem = int (length (filter holds_slot cs))"
    "current sem \<le> sem_max sem" "queue sem \<noteq> [] \<longrightarrow> current sem = sem_max sem"
    using inv unfolding gate_inv_def by blast+
  show ?thesis
    unfolding gate_inv_def
  proof (intro conjI)
    show "length (cs[i := c']) = n" using n by simp
    show "current sem = int (length (filter holds_slot (cs[i := c'])))"
      using rest(2) cnt by simp
    show "\<exists>k\<le>n. queue sem = [k..<n] \<and> (\<forall>j<n. (cs[i := c'] ! j = Waiting) = (k \<le> j))"
      using k(1,2) w by blast
  qed (use rest b in simp_all)
qed

lemma release_eq:
  "release sem =
     (case queue sem of
        [] \<Rightarrow> (sem\<lparr>current := current sem - 1\<rparr>, None)
      | w # ws \<Rightarrow> (sem\<lparr>queue := ws\<rparr>, Some w))"
  by (cases sem) (simp add: release_def Let_def split: list.splits)

lemma gate_inv_release:
  assumes inv: "gate_inv n cs sem" and i: "i < length cs" and ci: "cs ! i = Invoking a"
  shows "gate_inv n (case snd (release sem) of
                       None \<Rightarrow> cs[i := Finished]
                     | Some w \<Rightarrow> cs[i := Finished, w := Granted])
                    (fst (release sem))"
proof -
  have n: "length cs = n" and pos: "0 < sem_max sem"
    and cur: "current sem = int (length (filter holds_slot cs))"
    and le: "current sem \<le> sem_max sem"
    and full: "queue sem \<noteq> [] \<longrightarrow> current sem = sem_max sem"
    and bnd: "\<forall>j<n. \<forall>k. cs ! j = Invoking k \<or> cs ! j = Sleeping k \<longrightarrow> k \<le> max_retries"
    using inv unfolding gate_inv_def by blast+
  from inv obtain k where k: "k \<le> n" "queue sem = [k..<n]"
    "\<forall>j<n. (cs ! j = Waiting) = (k \<le> j)"
    by (auto simp: gate_inv_def)
  have hi: "holds_slot (cs ! i)" by (simp add: ci holds_slot_def)
  have c1: "length (filter holds_slot (cs[i := Finished])) + 1 = length (filter holds_slot cs)"
    using filter_update_count[OF i, of holds_slot Finished] hi by (simp add: holds_slot_def)
  show ?thesis
  proof (cases "k = n")
    case True
    with k have q: "queue sem = []" by simp
    then have rel: "release sem = (sem\<lparr>current := current sem - 1\<rparr>, None)"
      by (simp add: release_eq)
    have w: "\<forall>j<n. (cs[i := Finished] ! j = Waiting) = (n \<le> j)"
      using k(3) True n i by (auto simp: nth_list_update split: if_splits)
    have b: "\<forall>j<n. \<forall>k. cs[i := Finished] ! j = Invoking k \<or> cs[i := Finished] ! j = Sleeping k
               \<longrightarrow> k \<le> max_retries"
      using bnd i n by (auto simp: nth_list_update split: if_splits)
    show ?thesis
      unfolding gate_inv_def rel
    proof (simp only: fst_conv snd_conv option.case, intro conjI)
      show "length (cs[i := Finished]) = n" using n by simp
      show "current (sem\<lparr>current := current sem - 1\<rparr>) =
              int (length (filter holds_slot (cs[i := Finished])))"
        using cur c1 by simp
      show "current (sem\<lparr>current := current sem - 1\<rparr>) \<le> sem_max (sem\<lparr>current := current sem - 1\<rparr>)"
        using le by simp
      show "\<exists>k\<le>n. queue (sem\<lparr>current := current sem - 1\<rparr>) = [k..<n] \<and>
              (\<forall>j<n. (cs[i := Finished] ! j = Waiting) = (k \<le> j))"
        using q w by (intro exI[of _ n]) simp
    qed (use pos q b in simp_all)
  next
    case False
    with k have kn: "k < n" by simp
    then have q: "queue sem = k # [Suc k..<n]" using k(2) by (simp add: upt_conv_Cons)
    then have rel: "release sem = (sem\<lparr>queue := [Suc k..<n]\<rparr>, Some k)"
      by (simp add: release_eq)
    from k(3) kn have wk: "cs ! k = Waiting" by simp
    with ci have ik: "i \<noteq> k" by auto
    have kl: "k < length (cs[i := Finished])" using kn n by simp
    have "\<not> holds_slot (cs[i := Finished] ! k)"
      using ik wk by (simp add: holds_slot_def)
    with filter_update_count[OF kl, of holds_slot Granted]
    have c2: "length (filter holds_slot (cs[i := Finished, k := Granted])) =
              length (filter holds_slot (cs[i := Finished])) + 1"
      by (simp add: holds_slot_def)
    have w: "\<forall>j<n. (cs[i := Finished, k := Granted] ! j = Waiting) = (Suc k \<le> j)"
    proof (intro allI impI)
      fix j assume j: "j < n"
      show "(cs[i := Finished, k := Granted] ! j = Waiting) = (Suc k \<le> j)"
      proof (cases "j = k")
        case True
        with kn n show ?thesis by simp
      next
        case jk: False
        show ?thesis
        proof (cases "j = i")
          case True
          with jk i k(3) j ci show ?thesis by auto
        next
          case False
          with jk k(3) j show ?thesis by auto
        qed
      qed
    qed
    have b: "\<forall>j<n. \<forall>k'. cs[i := Finished, k := Granted] ! j = Invoking k' \<or>
                 cs[i := Finished, k := Granted] ! j = Sleeping k' \<longrightarrow> k' \<le> max_retries"
      using bnd i n kn by (auto simp: nth_list_update split: if_splits)
    have full': "current sem = sem_max sem" using full q by simp
    show ?thesis
      unfolding gate_inv_def rel
    proof (simp only: fst_conv snd_conv option.case, intro conjI)
      show "length (cs[i := Finished, k := Granted]) = n" using n by simp
      show "current (sem\<lparr>queue := [Suc k..<n]\<rparr>) =
              int (length (filter holds_slot (cs[i := Finished, k := Granted])))"
        using cur c1 c2 by simp
      show "\<exists>k'\<le>n. queue (sem\<lparr>queue := [Suc k..<n]\<rparr>) = [k'..<n] \<and>
              (\<forall>j<n. (cs[i := Finished, k := Granted] ! j = Waiting) = (k' \<le> j))"
        using kn w by (intro exI[of _ "Suc k"]) simp
    qed (use pos le full' b in simp_all)
  qed
qed

lemma gate_inv_step:
  assumes "gate_inv n (pcs p) (semaphore p)" and "step options ev p = Some p'"
  shows "gate_inv n (pcs p') (semaphore p')"
proof -
  from step_pcs[OF assms(2)] obtain i where i: "i < length (pcs p)"
    and d: "(\<exists>c'. local_move (pcs p ! i) c' \<and> pcs p' = (pcs p)[i := c'] \<and>
                  semaphore p' = semaphore p) \<or>
           (\<exists>k. pcs p ! i = Invoking k \<and> semaphore p' = fst (release (semaphore p)) \<and>
                 pcs p' = (case snd (release (semaphore p)) of
                             None \<Rightarrow> (pcs p)[i := Finished]
                           | Some w \<Rightarrow> (pcs p)[i := Finished, w := Granted]))"
    by blast
  from d show ?thesis
  proof
    assume "\<exists>c'. local_move (pcs p ! i) c' \<and> pcs p' = (pcs p)[i := c'] \<and>
                  semaphore p' = semaphore p"
    then show ?thesis using gate_inv_local[OF assms(1) i] by auto
  next
    assume "\<exists>k. pcs p ! i = Invoking k \<and> semaphore p' = fst (release (semaphore p)) \<and>
                 pcs p' = (case snd (release (semaphore p)) of
                             None \<Rightarrow> (pcs p)[i := Finished]
                           | Some w \<Rightarrow> (pcs p)[i := Finished, w := Granted])"
    then show ?thesis using gate_inv_release[OF assms(1) i] by auto
  qed
qed

lemma gate_inv_run:
  assumes "run options evs (start_pool options bs) = Some p"
  shows "gate_inv (length bs) (pcs p) (semaphore p)"
  using assms
proof (induction rule: run_induct)
  case start
  show ?case by (rule gate_inv_start)
next
  case (step evs q ev q')
  then show ?case by (auto intro: gate_inv_step)
qed

subsection \<open>Concurrency bound and fairness\<close>

lemma sem_max_run:
  assumes "run options evs (start_pool options bs) = Some p"
  shows "sem_max (semaphore p) = int (effective_concurrency options)"
  using assms
proof (induction rule: run_induct)
  case start
  show ?case by (simp add: start_pool_eq)
next
  case (step evs q ev q')
  from step_pcs[OF \<open>step options ev q = Some q'\<close>]
  have "sem_max (semaphore q') = sem_max (semaphore q)"
    by (auto simp: release_eq split: list.splits)
  with \<open>sem_max (semaphore q) = int (effective_concurrency options)\<close> show ?case by simp
qed

text \<open>
  Claim C5. In every state that \<open>processAllBatches\<close> can reach, the number of tasks that
  hold a slot (acquired and not released) is at most the concurrency; the semaphore's
  count of slots in use is exactly that number and never exceeds its maximum; the
  queue holds exactly the waiting tasks, in the order in which they called \<open>acquire\<close>
  (array order), so that no waiting task is overtaken; and \<open>release\<close> with a non-empty
  queue resumes the head of the queue and leaves the count unchanged: the slot is
  handed over, never freed.
\<close>

theorem concurrency_bound_and_fifo:
  assumes "processAllBatches bs options evs = Some p"
  shows "length (filter holds_slot (pcs p)) \<le> effective_concurrency options \<and>
         current (semaphore p) = int (length (filter holds_slot (pcs p))) \<and>
         current (semaphore p) \<le> sem_max (semaphore p) \<and>
         sem_max (semaphore p) = int (effective_concurrency options) \<and>
         (\<exists>k\<le>length bs. queue (semaphore p) = [k..<length bs] \<and>
            (\<forall>j<length bs. (pcs p ! j = Waiting) = (k \<le> j))) \<and>
         (\<forall>w ws. queue (semaphore p) = w # ws \<longrightarrow>
            release (semaphore p) = (semaphore p\<lparr>queue := ws\<rparr>, Some w))"
proof -
  from assms have r: "run options evs (start_pool options bs) = Some p"
    by (simp add: processAllBatches_def)
  have g: "gate_inv (length bs) (pcs p) (semaphore p)"
    by (rule gate_inv_run[OF r])
  have m: "sem_max (semaphore p) = int (effective_concurrency options)"
    by (rule sem_max_run[OF r])
  have cur: "current (semaphore p) = int (length (filter holds_slot (pcs p)))"
    and le: "current (semaphore p) \<le> sem_max (semaphore p)"
    and q: "\<exists>k\<le>length bs. queue (semaphore p) = [k..<length bs] \<and>
            (\<forall>j<length bs. (pcs p ! j = Waiting) = (k \<le> j))"
    using g unfolding gate_inv_def by blast+
  have "length (filter holds_slot (pcs p)) \<le> effective_concurrency options"
    using cur le m by simp
  moreover have "\<forall>w ws. queue (semaphore p) = w # ws \<longrightarrow>
            release (semaphore p) = (semaphore p\<lparr>queue := ws\<rparr>, Some w)"
    by (simp add: release_eq)
  ultimately show ?thesis using cur le m q by blast
qed

theorem concurrency_bound_and_fifo_witness:
  "\<exists>p. processAllBatches ex_batches ex_pool_options (take 2 ex_events) = Some p \<and>
       length (filter holds_slot (pcs p)) \<le> effective_concurrency ex_pool_options \<and>
       current (semaphore p) = int (length (filter holds_slot (pcs p))) \<and>
       current (semaphore p) \<le> sem_max (semaphore p) \<and>
       queue (semaphore p) = [2] \<and>
       release (semaphore p) = (semaphore p\<lparr>queue := []\<rparr>, Some 2)"
proof -
  have "processAllBatches ex_batches ex_pool_options (take 2 ex_events) \<noteq> None"
    by code_simp
  then obtain p where p: "processAllBatches ex_batches ex_pool_options (take 2 ex_events) = Some p"
    by auto
  have q: "map_option (\<lambda>p. queue (semaphore p))
             (processAllBatches ex_batches ex_pool_options (take 2 ex_events)) = Some [2]"
    by code_simp
  with p have "queue (semaphore p) = [2]" by simp
  with concurrency_bound_and_fifo[OF p] p show ?thesis by simp
qed

subsection \<open>The results array\<close>

lemma array_set_length: "length xs \<le> length (array_set xs i v)"
  by (simp add: array_set_def)

lemma array_set_length_in: "i < length xs \<Longrightarrow> length (array_set xs i v) = length xs"
  by (simp add: array_set_def)

lemma array_set_at: "i < length (array_set xs i v) \<and> array_set xs i v ! i = Some v"
  by (simp add: array_set_def nth_append)

lemma array_set_other:
  "j \<noteq> i \<Longrightarrow> j < length (array_set xs i v) \<Longrightarrow>
     array_set xs i v ! j = (if j < length xs then xs ! j else None)"
  by (auto simp: array_set_def nth_append nth_Cons' split: if_splits)

lemma map_index_update:
  "index b = index (xs ! i) \<Longrightarrow> map index (xs[i := b]) = map index xs"
  by (simp add: map_update map_update_same)

lemma index_simps:
  "map index (batches (call_agent i k p)) = map index (batches p)"
  "map index (batches (begin_batch i now p)) = map index (batches p)"
  "map index (batches (note_failure i k e p)) = map index (batches p)"
  "map index (batches (backoff i a p)) = map index (batches p)"
  "map index (batches (snd (record_result i succ res lastErr now p))) = map index (batches p)"
  "map index (batches (throw i e p)) = map index (batches p)"
  "map index (batches (release_slot i p)) = map index (batches p)"
  by (simp_all add: call_agent_def begin_batch_def note_failure_def backoff_def
        record_result_def throw_def release_slot_def Let_def map_index_update split: prod.splits)

lemma results_simps:
  "results (call_agent i k p) = results p"
  "results (begin_batch i now p) = results p"
  "results (note_failure i k e p) = results p"
  "results (backoff i a p) = results p"
  "results (throw i e p) = results p"
  "results (release_slot i p) = results p"
  by (simp_all add: call_agent_def begin_batch_def note_failure_def backoff_def
        throw_def release_slot_def Let_def split: prod.splits)

lemma results_record_result:
  "results (snd (record_result i succ res lastErr now p)) =
     array_set (results p) (index (batches p ! i)) (fst (record_result i succ res lastErr now p))"
  "batchIndex (fst (record_result i succ res lastErr now p)) = index (batches p ! i)"
  by (simp_all add: record_result_def Let_def)

text \<open>Storing one entry keeps the first three parts of the invariant.\<close>

lemma res_store:
  assumes "\<forall>j<length rs. \<forall>r. rs ! j = Some r \<longrightarrow> batchIndex r = j"
      and "batchIndex br = x"
  shows "\<forall>j<length (array_set rs x br). \<forall>r. array_set rs x br ! j = Some r \<longrightarrow> batchIndex r = j"
proof (intro allI impI)
  fix j r assume j: "j < length (array_set rs x br)" and r: "array_set rs x br ! j = Some r"
  show "batchIndex r = j"
  proof (cases "j = x")
    case True
    with r assms(2) show ?thesis by (simp add: array_set_at)
  next
    case False
    with array_set_other[OF False j] r assms(1) show ?thesis
      by (auto split: if_splits)
  qed
qed

lemma res_kept:
  assumes "y < length rs" "rs ! y \<noteq> None"
  shows "y < length (array_set rs x br) \<and> array_set rs x br ! y \<noteq> None"
proof -
  have l: "y < length (array_set rs x br)"
    using assms(1) array_set_length[of rs x br] by simp
  show ?thesis
  proof (cases "y = x")
    case True
    then show ?thesis using array_set_at[of x rs br] by simp
  next
    case False
    from array_set_other[OF False l] assms l show ?thesis by simp
  qed
qed

lemma ended_update:
  "\<not> ended c \<Longrightarrow> j < length cs \<Longrightarrow> ended (cs[i := c] ! j) \<Longrightarrow> ended (cs ! j)"
  by (cases "i = j") auto

lemma ended_wake:
  "j \<noteq> i \<Longrightarrow> j < length cs \<Longrightarrow> ended (cs[i := c, w := Granted] ! j) \<Longrightarrow> ended (cs ! j)"
  by (cases "w = j") (auto simp: ended_def)

lemma ended_simps [simp]:
  "\<not> ended Waiting" "\<not> ended Granted" "\<not> ended (Invoking k)" "\<not> ended (Sleeping k)"
  "ended Finished" "ended (Threw e)"
  by (simp_all add: ended_def)

lemma res_inv_start: "res_inv bs (start_pool options bs)"
proof -
  have r: "results (start_pool options bs) = replicate (length bs) None"
    and b: "batches (start_pool options bs) = bs"
    by (simp_all add: start_pool_eq)
  have e: "\<not> ended (pcs (start_pool options bs) ! i)" if "i < length bs" for i
    using that by (simp add: pcs_start_pool ended_def)
  show ?thesis
    unfolding res_inv_def r b using e by simp
qed

lemma res_inv_step:
  assumes inv: "res_inv bs p" and g: "gate_inv (length bs) (pcs p) (semaphore p)"
      and st: "step options ev p = Some p'"
  shows "res_inv bs p'"
proof -
  have ix: "map index (batches p) = map index bs"
    and pos: "\<forall>j<length (results p). \<forall>r. results p ! j = Some r \<longrightarrow> batchIndex r = j"
    and len: "length bs \<le> length (results p)"
    and lenin: "(\<forall>b\<in>set bs. index b < length bs) \<longrightarrow> length (results p) = length bs"
    and fin: "\<forall>i<length bs. ended (pcs p ! i) \<longrightarrow>
        index (bs ! i) < length (results p) \<and> results p ! (index (bs ! i)) \<noteq> None"
    using inv unfolding res_inv_def by blast+
  have n: "length (pcs p) = length bs"
    using g unfolding gate_inv_def by blast
  have keep: "res_inv bs p'"
    if a: "map index (batches p') = map index (batches p)" and b: "results p' = results p"
      and c: "\<forall>j<length bs. ended (pcs p' ! j) \<longrightarrow> ended (pcs p ! j)"
    unfolding res_inv_def
  proof (intro conjI)
    show "map index (batches p') = map index bs" using a ix by simp
    show "\<forall>j<length (results p'). \<forall>r. results p' ! j = Some r \<longrightarrow> batchIndex r = j"
      using pos b by simp
    show "length bs \<le> length (results p')" using len b by simp
    show "(\<forall>b\<in>set bs. index b < length bs) \<longrightarrow> length (results p') = length bs"
      using lenin b by simp
    show "\<forall>i<length bs. ended (pcs p' ! i) \<longrightarrow>
            index (bs ! i) < length (results p') \<and> results p' ! (index (bs ! i)) \<noteq> None"
      using fin c b by simp
  qed
  have store: "res_inv bs p'"
    if iq: "i < length (tasks p)"
      and bq: "map index (batches q) = map index (batches p)" and rq: "results q = results p"
      and a: "map index (batches p') = map index (batches q)"
      and b: "results p' = results (snd (record_result i succ res lastErr now q))"
      and c: "\<forall>j<length bs. j \<noteq> i \<longrightarrow> ended (pcs p' ! j) \<longrightarrow> ended (pcs p ! j)"
    for i q succ res lastErr now
  proof -
    let ?br = "fst (record_result i succ res lastErr now q)"
    from iq n have il: "i < length bs" by (simp add: pcs_def)
    have lq: "length (batches q) = length bs"
      using bq ix by (metis length_map)
    have "index (batches q ! i) = map index (batches q) ! i"
      using il lq by simp
    also have "\<dots> = map index bs ! i" by (simp only: bq ix)
    also have "\<dots> = index (bs ! i)" using il by simp
    finally have idx: "index (batches q ! i) = index (bs ! i)" .
    have r': "results p' = array_set (results p) (index (bs ! i)) ?br"
      and bi: "batchIndex ?br = index (bs ! i)"
      using b rq idx by (simp_all add: results_record_result)
    show ?thesis
      unfolding res_inv_def
    proof (intro conjI)
      show "map index (batches p') = map index bs" using a bq ix by simp
      show "\<forall>j<length (results p'). \<forall>r. results p' ! j = Some r \<longrightarrow> batchIndex r = j"
        unfolding r' by (rule res_store[OF pos bi])
      show "length bs \<le> length (results p')"
        unfolding r' using len array_set_length[of "results p"] by (meson order_trans)
      show "(\<forall>b\<in>set bs. index b < length bs) \<longrightarrow> length (results p') = length bs"
      proof
        assume all: "\<forall>b\<in>set bs. index b < length bs"
        with il have "index (bs ! i) < length bs" by simp
        with lenin all show "length (results p') = length bs"
          unfolding r' by (simp add: array_set_length_in)
      qed
      show "\<forall>j<length bs. ended (pcs p' ! j) \<longrightarrow>
              index (bs ! j) < length (results p') \<and> results p' ! (index (bs ! j)) \<noteq> None"
      proof (intro allI impI)
        fix j assume j: "j < length bs" and e: "ended (pcs p' ! j)"
        show "index (bs ! j) < length (results p') \<and> results p' ! (index (bs ! j)) \<noteq> None"
        proof (cases "ended (pcs p ! j)")
          case True
          with fin j have "index (bs ! j) < length (results p) \<and> results p ! (index (bs ! j)) \<noteq> None"
            by simp
          then show ?thesis unfolding r' by (intro res_kept) simp_all
        next
          case False
          with c j e have "j = i" by blast
          then show ?thesis unfolding r'
            using array_set_at[of "index (bs ! i)" "results p" ?br] by simp
        qed
      qed
    qed
  qed
  from st show ?thesis
  proof (cases rule: step_cases)
    case (resume i now)
    have "\<forall>j<length bs. ended (pcs p' ! j) \<longrightarrow> ended (pcs p ! j)"
      using resume n by (auto simp: pcs_begin_batch elim: ended_update[rotated 2])
    with resume show ?thesis
      by (intro keep) (simp_all add: index_simps results_simps)
  next
    case (timer i k)
    have "\<forall>j<length bs. ended (pcs p' ! j) \<longrightarrow> ended (pcs p ! j)"
      using timer n by (auto simp: pcs_call_agent elim: ended_update[rotated 2])
    with timer show ?thesis
      by (intro keep) (simp_all add: index_simps results_simps)
  next
    case (retry i k e now)
    have "\<forall>j<length bs. ended (pcs p' ! j) \<longrightarrow> ended (pcs p ! j)"
      using retry n
      by (auto simp: pcs_backoff pcs_note_failure elim: ended_update[rotated 2])
    with retry show ?thesis
      by (intro keep) (simp_all add: index_simps results_simps)
  next
    case (threw i k out now q succ res lastErr e)
    then have q: "map index (batches q) = map index (batches p)" "results q = results p"
      "pcs q = pcs p"
      by (auto simp: index_simps results_simps pcs_note_failure)
    have "\<forall>j<length bs. j \<noteq> i \<longrightarrow> ended (pcs p' ! j) \<longrightarrow> ended (pcs p ! j)"
      using threw(5) q(3) by (simp add: pcs_throw pcs_record_result)
    with threw(2,5) q(1,2) show ?thesis
      by (intro store[of i q succ res lastErr now]) (simp_all add: index_simps results_simps)
  next
    case (released i k out now q succ res lastErr)
    then have q: "map index (batches q) = map index (batches p)" "results q = results p"
      "pcs q = pcs p" "semaphore q = semaphore p"
      by (auto simp: index_simps results_simps pcs_note_failure semaphore_simps)
    have "\<forall>j<length bs. j \<noteq> i \<longrightarrow> ended (pcs p' ! j) \<longrightarrow> ended (pcs p ! j)"
      using released(5) q(3,4) n
      by (auto simp: pcs_release_slot pcs_record_result semaphore_simps
            split: option.splits elim: ended_wake[rotated 2])
    with released(2,5) q(1,2) show ?thesis
      by (intro store[of i q succ res lastErr now]) (simp_all add: index_simps results_simps)
  qed
qed

lemma res_inv_run:
  assumes "run options evs (start_pool options bs) = Some p"
  shows "res_inv bs p"
  using assms
proof (induction rule: run_induct)
  case start
  show ?case by (rule res_inv_start)
next
  case (step evs q ev q')
  from gate_inv_run[OF \<open>run options evs (start_pool options bs) = Some q\<close>]
    \<open>res_inv bs q\<close> \<open>step options ev q = Some q'\<close>
  show ?case by (intro res_inv_step[of bs q options ev q']) simp_all
qed

subsection \<open>The promise of the pool\<close>

lemma map_filter_threw_Nil:
  "List.map_filter threw ts = [] \<longleftrightarrow> (\<forall>t\<in>set ts. threw t = None)"
  by (induction ts) (auto simp: List.map_filter_simps split: option.splits)

lemma pool_promise_Fulfilled:
  assumes "pool_promise p = Some (Fulfilled rs)"
  shows "rs = results p \<and> (\<forall>i<length (pcs p). pcs p ! i = Finished)"
proof -
  from assms have "rs = results p" and "list_all (\<lambda>t. pc t = Finished) (tasks p)"
    by (auto simp: pool_promise_def split: list.splits if_splits)
  then show ?thesis
    by (simp add: pcs_def list_all_length)
qed

lemma pool_promise_Rejected:
  assumes "pool_promise p = Some (Rejected e)"
  shows "\<exists>i<length (pcs p). \<exists>e'. pcs p ! i = Threw e'"
proof -
  from assms have "List.map_filter threw (tasks p) \<noteq> []"
    by (auto simp: pool_promise_def split: list.splits if_splits)
  then obtain t where t: "t \<in> set (tasks p)" "threw t \<noteq> None"
    by (auto simp: map_filter_threw_Nil)
  then obtain i where i: "i < length (tasks p)" "tasks p ! i = t"
    by (auto simp: in_set_conv_nth)
  from t(2) obtain e' where "pc t = Threw e'"
    by (auto simp: threw_def split: task_pc.splits)
  with i show ?thesis by (auto simp: pcs_def)
qed

text \<open>
  Claim C2. Whatever the order of the events and the outcomes of the agent calls: when
  the promise of \<open>processAllBatches\<close> is fulfilled with an array, and the indices of the
  given batches are exactly \<open>0..n-1\<close>, the array has length \<open>n\<close> and its entry at every
  position \<open>i\<close> is the result whose \<open>batchIndex\<close> is \<open>i\<close>.
\<close>

theorem results_index_stable:
  assumes "processAllBatches bs options evs = Some p"
      and "pool_promise p = Some (Fulfilled rs)"
      and "set (map index bs) = {0..<length bs}"
  shows "length rs = length bs \<and> (\<forall>i<length bs. \<exists>r. rs ! i = Some r \<and> batchIndex r = i)"
proof -
  from assms(1) have r: "run options evs (start_pool options bs) = Some p"
    by (simp add: processAllBatches_def)
  have g: "gate_inv (length bs) (pcs p) (semaphore p)" by (rule gate_inv_run[OF r])
  then have n: "length (pcs p) = length bs" unfolding gate_inv_def by blast
  have inv: "res_inv bs p" by (rule res_inv_run[OF r])
  from pool_promise_Fulfilled[OF assms(2)] n
  have rs: "rs = results p" and fin: "\<forall>i<length bs. pcs p ! i = Finished" by simp_all
  have pos: "\<forall>j<length (results p). \<forall>r. results p ! j = Some r \<longrightarrow> batchIndex r = j"
    and lenin: "(\<forall>b\<in>set bs. index b < length bs) \<longrightarrow> length (results p) = length bs"
    and stored: "\<forall>i<length bs. ended (pcs p ! i) \<longrightarrow>
        index (bs ! i) < length (results p) \<and> results p ! (index (bs ! i)) \<noteq> None"
    using inv unfolding res_inv_def by blast+
  have "\<forall>b\<in>set bs. index b < length bs"
  proof
    fix b assume "b \<in> set bs"
    then have "index b \<in> set (map index bs)" by simp
    with assms(3) show "index b < length bs" by simp
  qed
  with lenin have len: "length (results p) = length bs" by simp
  have "\<exists>r. results p ! i = Some r \<and> batchIndex r = i" if i: "i < length bs" for i
  proof -
    from i assms(3) have "i \<in> set (map index bs)" by simp
    then obtain j where j: "j < length bs" "index (bs ! j) = i"
      by (auto simp: in_set_conv_nth)
    from fin j(1) have "ended (pcs p ! j)" by (simp add: ended_def)
    with stored j have "results p ! i \<noteq> None" by auto
    then obtain r where "results p ! i = Some r" by auto
    with pos i len show ?thesis by auto
  qed
  with len rs show ?thesis by simp
qed

theorem results_index_stable_witness:
  "\<exists>p rs. processAllBatches ex_batches ex_pool_options ex_events = Some p \<and>
          pool_promise p = Some (Fulfilled rs) \<and>
          set (map index ex_batches) = {0..<length ex_batches} \<and>
          length rs = length ex_batches \<and>
          map (map_option batchIndex) rs = [Some 0, Some 1, Some 2]"
proof -
  have e: "map_option pool_promise (processAllBatches ex_batches ex_pool_options ex_events) =
      Some (Some (Fulfilled
        [Some \<lparr>batchIndex = 0, success = True, br_result = Some ''ok'', br_error = None,
               duration = 39\<rparr>,
         Some \<lparr>batchIndex = 1, success = True, br_result = Some ''r1'', br_error = None,
               duration = 10\<rparr>,
         Some \<lparr>batchIndex = 2, success = False, br_result = None, br_error = Some ''f2'',
               duration = 8\<rparr>]))"
    by code_simp
  then obtain p where p: "processAllBatches ex_batches ex_pool_options ex_events = Some p"
    by auto
  with e obtain rs where rs: "pool_promise p = Some (Fulfilled rs)"
    "map (map_option batchIndex) rs = [Some 0, Some 1, Some 2]"
    by auto
  have "set (map index ex_batches) = set [0..<length ex_batches]"
    by code_simp
  then have ix: "set (map index ex_batches) = {0..<length ex_batches}"
    by simp
  from results_index_stable[OF p rs(1) ix] have "length rs = length ex_batches" by simp
  with p rs ix show ?thesis
    by (intro exI[of _ p] exI[of _ rs]) simp
qed

subsection \<open>Terminal statuses and counters\<close>

lemma batches_simps:
  "batches (call_agent i k p) = batches p"
  "batches (begin_batch i now p) =
     (batches p)[i := (batches p ! i)\<lparr>status := Processing, startTime := Some now\<rparr>]"
  "batches (note_failure i k e p) = (batches p)[i := (batches p ! i)\<lparr>retries := k + 1\<rparr>]"
  "batches (backoff i a p) = batches p"
  "batches (throw i e p) = batches p"
  "batches (release_slot i p) = batches p"
  by (simp_all add: call_agent_def begin_batch_def note_failure_def backoff_def
        throw_def release_slot_def Let_def split: prod.splits)

lemma batches_record_result:
  "batches (snd (record_result i succ res lastErr now p)) =
     (batches p)[i := (if succ
                       then (batches p ! i)\<lparr>endTime := Some now, status := Completed, result := res\<rparr>
                       else (batches p ! i)\<lparr>endTime := Some now, status := Failed,
                                              error := lastErr\<rparr>)]"
  by (simp add: record_result_def Let_def)

lemma counters_simps:
  "completed (call_agent i k p) + failed (call_agent i k p) = completed p + failed p"
  "completed (begin_batch i now p) + failed (begin_batch i now p) = completed p + failed p"
  "completed (note_failure i k e p) + failed (note_failure i k e p) = completed p + failed p"
  "completed (backoff i a p) + failed (backoff i a p) = completed p + failed p"
  "completed (throw i e p) + failed (throw i e p) = completed p + failed p"
  "completed (release_slot i p) + failed (release_slot i p) = completed p + failed p"
  "completed (snd (record_result i succ res lastErr now p)) +
     failed (snd (record_result i succ res lastErr now p)) = Suc (completed p + failed p)"
  by (simp_all add: call_agent_def begin_batch_def note_failure_def backoff_def
        throw_def release_slot_def record_result_def Let_def split: prod.splits)

lemma term_inv_start: "term_inv bs (start_pool options bs)"
proof -
  have e: "\<not> ended (pcs (start_pool options bs) ! i)" if "i < length bs" for i
    using that by (simp add: pcs_start_pool)
  have "filter ended (pcs (start_pool options bs)) = []"
    by (auto simp: pcs_start_pool filter_empty_conv)
  then show ?thesis
    unfolding term_inv_def using e by (simp add: start_pool_eq)
qed

lemma term_inv_step:
  assumes inv: "term_inv bs p" and g: "gate_inv (length bs) (pcs p) (semaphore p)"
      and st: "step options ev p = Some p'"
  shows "term_inv bs p'"
proof -
  have lb: "length (batches p) = length bs"
    and tm: "\<forall>i<length bs. ended (pcs p ! i) \<longrightarrow>
        status (batches p ! i) = Completed \<or> status (batches p ! i) = Failed"
    and cn: "completed p + failed p = length (filter ended (pcs p))"
    using inv unfolding term_inv_def by blast+
  have n: "length (pcs p) = length bs"
    using g unfolding gate_inv_def by blast
  from g obtain k0 where k0: "k0 \<le> length bs" "queue (semaphore p) = [k0..<length bs]"
    "\<forall>j<length bs. (pcs p ! j = Waiting) = (k0 \<le> j)"
    unfolding gate_inv_def by blast
  have keep: "term_inv bs p'"
    if i: "i < length (tasks p)" and ne: "\<not> ended (pcs p ! i)" "\<not> ended c"
      and pc': "pcs p' = (pcs p)[i := c]"
      and b': "\<forall>j<length bs. j \<noteq> i \<longrightarrow> batches p' ! j = batches p ! j"
      and l': "length (batches p') = length (batches p)"
      and c': "completed p' + failed p' = completed p + failed p"
    for i c
    unfolding term_inv_def
  proof (intro conjI)
    show "length (batches p') = length bs" using l' lb by simp
    show "\<forall>j<length bs. ended (pcs p' ! j) \<longrightarrow>
            status (batches p' ! j) = Completed \<or> status (batches p' ! j) = Failed"
    proof (intro allI impI)
      fix j assume j: "j < length bs" and e: "ended (pcs p' ! j)"
      from i n have il: "i < length (pcs p)" by (simp add: pcs_def)
      from e ne(2) pc' il have "j \<noteq> i" by auto
      with e pc' have "ended (pcs p ! j)" by simp
      with tm j b' \<open>j \<noteq> i\<close>
      show "status (batches p' ! j) = Completed \<or> status (batches p' ! j) = Failed" by simp
    qed
    from i have il: "i < length (pcs p)" by (simp add: pcs_def)
    from filter_update_count[OF il, of ended c] ne
    have "length (filter ended (pcs p')) = length (filter ended (pcs p))"
      by (simp add: pc')
    with c' cn show "completed p' + failed p' = length (filter ended (pcs p'))" by simp
  qed
  have fin: "term_inv bs p'"
    if i: "i < length (tasks p)" and ne: "\<not> ended (pcs p ! i)"
      and lq: "length (batches q) = length (batches p)"
      and bq: "\<forall>j<length bs. j \<noteq> i \<longrightarrow> batches q ! j = batches p ! j"
      and cq: "completed q + failed q = completed p + failed p"
      and b': "batches p' = batches (snd (record_result i succ res lastErr now q))"
      and c': "completed p' + failed p' = Suc (completed q + failed q)"
      and pc': "(\<exists>c. ended c \<and> pcs p' = (pcs p)[i := c]) \<or>
                (\<exists>w<length bs. w \<noteq> i \<and> pcs p ! w = Waiting \<and>
                   pcs p' = (pcs p)[i := Finished, w := Granted])"
    for i q succ res lastErr now
  proof -
    from i n have il: "i < length (pcs p)" and ib: "i < length bs" by (simp_all add: pcs_def)
    from ib lq lb have iq: "i < length (batches q)" by simp
    have st_i: "status (batches p' ! i) = Completed \<or> status (batches p' ! i) = Failed"
      using iq by (simp add: b' batches_record_result)
    have other: "batches p' ! j = batches p ! j" if "j < length bs" "j \<noteq> i" for j
      using that bq by (simp add: b' batches_record_result)
    have len: "length (batches p') = length bs"
      using lq lb by (simp add: b' batches_record_result)
    have old: "ended (pcs p ! j)" if "j < length bs" "j \<noteq> i" "ended (pcs p' ! j)" for j
      using pc'
    proof
      assume "\<exists>c. ended c \<and> pcs p' = (pcs p)[i := c]"
      with that show ?thesis by auto
    next
      assume "\<exists>w<length bs. w \<noteq> i \<and> pcs p ! w = Waiting \<and>
                pcs p' = (pcs p)[i := Finished, w := Granted]"
      then obtain w where "pcs p' = (pcs p)[i := Finished, w := Granted]" by blast
      with that n ended_wake[of j i "pcs p" Finished w] show ?thesis by simp
    qed
    have cnt: "length (filter ended (pcs p')) = Suc (length (filter ended (pcs p)))"
      using pc'
    proof
      assume "\<exists>c. ended c \<and> pcs p' = (pcs p)[i := c]"
      then obtain c where c: "ended c" "pcs p' = (pcs p)[i := c]" by blast
      from filter_update_count[OF il, of ended c] ne c show ?thesis by simp
    next
      assume "\<exists>w<length bs. w \<noteq> i \<and> pcs p ! w = Waiting \<and>
                pcs p' = (pcs p)[i := Finished, w := Granted]"
      then obtain w where w: "w < length bs" "w \<noteq> i" "pcs p ! w = Waiting"
        "pcs p' = (pcs p)[i := Finished, w := Granted]" by blast
      from filter_update_count[OF il, of ended Finished] ne
      have a: "length (filter ended ((pcs p)[i := Finished])) = Suc (length (filter ended (pcs p)))"
        by simp
      have wl: "w < length ((pcs p)[i := Finished])" using w(1) n by simp
      from filter_update_count[OF wl, of ended Granted] w(2,3)
      have "length (filter ended ((pcs p)[i := Finished, w := Granted])) =
            length (filter ended ((pcs p)[i := Finished]))"
        by simp
      with a w(4) show ?thesis by simp
    qed
    show ?thesis
      unfolding term_inv_def
    proof (intro conjI)
      show "length (batches p') = length bs" by (rule len)
      show "\<forall>j<length bs. ended (pcs p' ! j) \<longrightarrow>
              status (batches p' ! j) = Completed \<or> status (batches p' ! j) = Failed"
      proof (intro allI impI)
        fix j assume j: "j < length bs" and e: "ended (pcs p' ! j)"
        show "status (batches p' ! j) = Completed \<or> status (batches p' ! j) = Failed"
        proof (cases "j = i")
          case True
          with st_i show ?thesis by simp
        next
          case False
          from old[OF j False e] tm j other[OF j False] show ?thesis by simp
        qed
      qed
      show "completed p' + failed p' = length (filter ended (pcs p'))"
        using c' cq cn cnt by simp
    qed
  qed
  from st show ?thesis
  proof (cases rule: step_cases)
    case (resume i now)
    then show ?thesis
      by (intro keep[of i "Invoking 0"])
         (simp_all add: pcs_begin_batch batches_simps counters_simps, simp_all add: pcs_def)
  next
    case (timer i k)
    then show ?thesis
      by (intro keep[of i "Invoking k"])
         (simp_all add: pcs_call_agent batches_simps counters_simps, simp_all add: pcs_def)
  next
    case (retry i k e now)
    then show ?thesis
      by (intro keep[of i "Sleeping (k + 1)"])
         (simp_all add: pcs_backoff pcs_note_failure batches_simps counters_simps,
          simp_all add: pcs_def)
  next
    case (threw i k out now q succ res lastErr e)
    then have q: "pcs q = pcs p" "length (batches q) = length (batches p)"
      "\<forall>j<length bs. j \<noteq> i \<longrightarrow> batches q ! j = batches p ! j"
      "completed q + failed q = completed p + failed p"
      by (auto simp: pcs_note_failure batches_simps counters_simps)
    have "ended (Threw e) \<and> pcs p' = (pcs p)[i := Threw e]"
      using threw(5) q(1) by (simp add: pcs_throw pcs_record_result)
    then have "(\<exists>c. ended c \<and> pcs p' = (pcs p)[i := c]) \<or>
                (\<exists>w<length bs. w \<noteq> i \<and> pcs p ! w = Waiting \<and>
                   pcs p' = (pcs p)[i := Finished, w := Granted])"
      by blast
    with threw(2,3,5) q show ?thesis
      by (intro fin[of i q succ res lastErr now])
         (simp_all add: batches_simps counters_simps, simp_all add: pcs_def)
  next
    case (released i k out now q succ res lastErr)
    then have q: "pcs q = pcs p" "length (batches q) = length (batches p)"
      "\<forall>j<length bs. j \<noteq> i \<longrightarrow> batches q ! j = batches p ! j"
      "completed q + failed q = completed p + failed p" "semaphore q = semaphore p"
      by (auto simp: pcs_note_failure batches_simps counters_simps semaphore_simps)
    from released(3) have pi: "pcs p ! i = Invoking k"
      using released(2) by (simp add: pcs_def)
    have pcs': "pcs p' = (case snd (release (semaphore p)) of
                            None \<Rightarrow> (pcs p)[i := Finished]
                          | Some w \<Rightarrow> (pcs p)[i := Finished, w := Granted])"
      using released(5) q(1,5)
      by (simp add: pcs_release_slot pcs_record_result semaphore_simps split: option.splits)
    have "(\<exists>c. ended c \<and> pcs p' = (pcs p)[i := c]) \<or>
                (\<exists>w<length bs. w \<noteq> i \<and> pcs p ! w = Waiting \<and>
                   pcs p' = (pcs p)[i := Finished, w := Granted])"
    proof (cases "k0 = length bs")
      case True
      with k0(2) have "snd (release (semaphore p)) = None" by (simp add: release_eq)
      with pcs' have "ended Finished \<and> pcs p' = (pcs p)[i := Finished]" by simp
      then show ?thesis by blast
    next
      case False
      with k0(1) have kl: "k0 < length bs" by simp
      with k0(2) have "queue (semaphore p) = k0 # [Suc k0..<length bs]"
        by (simp add: upt_conv_Cons)
      then have "snd (release (semaphore p)) = Some k0" by (simp add: release_eq)
      with pcs' have a: "pcs p' = (pcs p)[i := Finished, k0 := Granted]" by simp
      from k0(3) kl have w: "pcs p ! k0 = Waiting" by simp
      with pi have "k0 \<noteq> i" by auto
      with a w kl show ?thesis by blast
    qed
    with released(2,3,5) q show ?thesis
      by (intro fin[of i q succ res lastErr now])
         (simp_all add: batches_simps counters_simps, simp_all add: pcs_def)
  qed
qed

lemma term_inv_run:
  assumes "run options evs (start_pool options bs) = Some p"
  shows "term_inv bs p"
  using assms
proof (induction rule: run_induct)
  case start
  show ?case by (rule term_inv_start)
next
  case (step evs q ev q')
  from gate_inv_run[OF \<open>run options evs (start_pool options bs) = Some q\<close>]
    \<open>term_inv bs q\<close> \<open>step options ev q = Some q'\<close>
  show ?case by (intro term_inv_step[of bs q options ev q']) simp_all
qed

subsection \<open>The pool never rejects\<close>

lemma no_throw_step:
  assumes cb: "\<forall>br pr. call_back options br pr = Fulfilled ()"
      and inv: "\<forall>c\<in>set (pcs p). \<forall>e. c \<noteq> Threw e"
      and st: "step options ev p = Some p'"
  shows "\<forall>c\<in>set (pcs p'). \<forall>e. c \<noteq> Threw e"
proof -
  have upd: "\<forall>c\<in>set (cs[i := x]). \<forall>e. c \<noteq> Threw e"
    if "\<forall>c\<in>set cs. \<forall>e. c \<noteq> Threw e" "\<forall>e. x \<noteq> Threw e" for cs i x
    using that set_update_subset_insert[of cs i x] by blast
  from st show ?thesis
  proof (cases rule: step_cases)
    case (resume i now)
    with inv show ?thesis by (simp only: pcs_begin_batch) (intro upd, simp_all)
  next
    case (timer i k)
    with inv show ?thesis by (simp only: pcs_call_agent) (intro upd, simp_all)
  next
    case (retry i k e now)
    with inv show ?thesis by (simp only: pcs_backoff pcs_note_failure) (intro upd, simp_all)
  next
    case (threw i k out now q succ res lastErr e)
    with cb show ?thesis by simp
  next
    case (released i k out now q succ res lastErr)
    then have q: "pcs q = pcs p" "semaphore q = semaphore p"
      by (auto simp: pcs_note_failure semaphore_simps)
    have "pcs p' = (case snd (release (semaphore p)) of
                      None \<Rightarrow> (pcs p)[i := Finished]
                    | Some w \<Rightarrow> (pcs p)[i := Finished, w := Granted])"
      using released(5) q
      by (simp add: pcs_release_slot pcs_record_result semaphore_simps split: option.splits)
    moreover have "\<forall>c\<in>set ((pcs p)[i := Finished]). \<forall>e. c \<noteq> Threw e"
      using inv by (intro upd) simp_all
    moreover have "\<forall>c\<in>set ((pcs p)[i := Finished, w := Granted]). \<forall>e. c \<noteq> Threw e" for w
      using inv by (intro upd) simp_all
    ultimately show ?thesis
      by (cases "snd (release (semaphore p))") simp_all
  qed
qed

lemma no_throw_run:
  assumes "run options evs (start_pool options bs) = Some p"
      and cb: "\<forall>br pr. call_back options br pr = Fulfilled ()"
  shows "\<forall>c\<in>set (pcs p). \<forall>e. c \<noteq> Threw e"
  using assms(1)
proof (induction rule: run_induct)
  case start
  show ?case by (auto simp: pcs_start_pool)
next
  case (step evs q ev q')
  from no_throw_step[OF cb \<open>\<forall>c\<in>set (pcs q). \<forall>e. c \<noteq> Threw e\<close> \<open>step options ev q = Some q'\<close>]
  show ?case .
qed

text \<open>
  Claim C4, as amended. Whatever the schedule and the outcomes of the agent calls: if
  the completion callback is absent or returns normally on every call, the promise of
  \<open>processAllBatches\<close> is never rejected; and when it is fulfilled, it is fulfilled with
  the results array, every batch has status \<open>completed\<close> or \<open>failed\<close>, and
  \<open>completed + failed\<close> is the number of batches.
\<close>

theorem pool_never_rejects:
  assumes "processAllBatches bs options evs = Some p"
      and "\<forall>batchResult progress. call_back options batchResult progress = Fulfilled ()"
  shows "(\<forall>e. pool_promise p \<noteq> Some (Rejected e)) \<and>
         (\<forall>rs. pool_promise p = Some (Fulfilled rs) \<longrightarrow>
            rs = results p \<and> length (batches p) = length bs \<and>
            (\<forall>i<length bs. status (batches p ! i) = Completed \<or> status (batches p ! i) = Failed) \<and>
            completed p + failed p = length bs)"
proof (intro conjI allI impI)
  from assms(1) have r: "run options evs (start_pool options bs) = Some p"
    by (simp add: processAllBatches_def)
  have n: "length (pcs p) = length bs"
    using gate_inv_run[OF r] unfolding gate_inv_def by blast
  have lb: "length (batches p) = length bs"
    and tm: "\<forall>i<length bs. ended (pcs p ! i) \<longrightarrow>
        status (batches p ! i) = Completed \<or> status (batches p ! i) = Failed"
    and cn: "completed p + failed p = length (filter ended (pcs p))"
    using term_inv_run[OF r] unfolding term_inv_def by blast+
  {
    fix e
    show "pool_promise p \<noteq> Some (Rejected e)"
    proof
      assume "pool_promise p = Some (Rejected e)"
      from pool_promise_Rejected[OF this] obtain i e' where "i < length (pcs p)" "pcs p ! i = Threw e'"
        by blast
      then have "Threw e' \<in> set (pcs p)" by (metis nth_mem)
      with no_throw_run[OF r assms(2)] show False by blast
    qed
  }
  fix rs assume "pool_promise p = Some (Fulfilled rs)"
  from pool_promise_Fulfilled[OF this] n
  have rs: "rs = results p" and fin: "\<forall>i<length bs. pcs p ! i = Finished" by simp_all
  show "rs = results p" by (rule rs)
  show "length (batches p) = length bs" by (rule lb)
  show "status (batches p ! i) = Completed \<or> status (batches p ! i) = Failed"
    if "i < length bs" for i
    using that fin tm by simp
  have "filter ended (pcs p) = pcs p"
    using fin n by (auto simp: filter_id_conv in_set_conv_nth)
  with cn n show "completed p + failed p = length bs" by simp
qed

theorem pool_never_rejects_witness:
  "\<exists>p rs. processAllBatches ex_batches ex_pool_options ex_events = Some p \<and>
          (\<forall>batchResult progress. call_back ex_pool_options batchResult progress = Fulfilled ()) \<and>
          pool_promise p = Some (Fulfilled rs) \<and>
          map status (batches p) = [Completed, Completed, Failed] \<and>
          completed p + failed p = length ex_batches"
proof -
  have e: "map_option (\<lambda>p. (pool_promise p \<noteq> None, map status (batches p)))
             (processAllBatches ex_batches ex_pool_options ex_events) =
           Some (True, [Completed, Completed, Failed])"
    by code_simp
  then obtain p where p: "processAllBatches ex_batches ex_pool_options ex_events = Some p"
    by auto
  have cb: "\<forall>batchResult progress. call_back ex_pool_options batchResult progress = Fulfilled ()"
    by (simp add: call_back_def ex_pool_options_def)
  from e p have ne: "pool_promise p \<noteq> None" and st: "map status (batches p) = [Completed, Completed, Failed]"
    by auto
  from pool_never_rejects[OF p cb] have nr: "\<forall>e. pool_promise p \<noteq> Some (Rejected e)"
    and ful: "\<forall>rs. pool_promise p = Some (Fulfilled rs) \<longrightarrow> completed p + failed p = length ex_batches"
    by blast+
  from ne nr obtain rs where rs: "pool_promise p = Some (Fulfilled rs)"
    by (cases "pool_promise p") (auto, metis settled.exhaust)
  with ful have "completed p + failed p = length ex_batches" by blast
  with p cb rs st show ?thesis
    by (intro exI[of _ p] exI[of _ rs]) simp
qed

text \<open>
  Claim C4 as stated includes every behaviour of the callback. With a callback that
  throws, one batch whose agent call succeeds rejects the promise of the pool.
\<close>

theorem pool_rejects_counterexample:
  "map_option pool_promise
     (processAllBatches ex_batches throwing_options
        [Resume 0 10, AgentSettles 0 (Fulfilled ''ok'') 20]) =
   Some (Some (Rejected ''callback failed''))"
  by code_simp

subsection \<open>Attempts, outcomes and the state of a batch\<close>

lemma map_update_keep:
  "(i < length xs \<Longrightarrow> f y = f (xs ! i)) \<Longrightarrow> map f (xs[i := y]) = map f xs"
  by (cases "i < length xs") (simp_all add: map_update list_update_same_conv list_update_beyond)

lemma errs_pc_update: "map lastError (ts[i := (ts ! i)\<lparr>pc := c\<rparr>]) = map lastError ts"
  by (rule map_update_keep) simp

lemma errs_call_agent: "errs (call_agent i k p) = errs p"
  by (simp add: errs_def call_agent_def errs_pc_update del: map_update)

lemma errs_begin_batch: "errs (begin_batch i now p) = errs p"
  by (simp add: errs_def begin_batch_def call_agent_def del: map_update)
     (rule map_update_keep, simp)

lemma errs_note_failure: "errs (note_failure i k e p) = (errs p)[i := Some e]"
  by (simp add: errs_def note_failure_def map_update)

lemma errs_backoff: "errs (backoff i a p) = errs p"
  by (simp add: errs_def backoff_def errs_pc_update del: map_update)

lemma errs_record_result: "errs (snd (record_result i succ res lastErr now p)) = errs p"
  by (simp add: errs_def record_result_def Let_def)

lemma errs_throw: "errs (throw i e p) = errs p"
  by (simp add: errs_def throw_def errs_pc_update del: map_update)

lemma errs_release_slot: "errs (release_slot i p) = errs p"
  by (simp add: errs_def release_slot_def Let_def errs_pc_update
        split: prod.splits option.splits del: map_update)

lemmas errs_simps = errs_call_agent errs_begin_batch errs_note_failure errs_backoff
  errs_record_result errs_throw errs_release_slot

lemma trace_simps:
  "trace (call_agent i k p) = trace p @ [InvokeAgent i k]"
  "trace (begin_batch i now p) = trace p @ [InvokeAgent i 0]"
  "trace (note_failure i k e p) = trace p"
  "trace (backoff i a p) = trace p @ [Sleep i (2000 * 2 ^ (a - 1))]"
  "trace (snd (record_result i succ res lastErr now p)) = trace p"
  "trace (throw i e p) = trace p"
  "trace (release_slot i p) = trace p"
  by (simp_all add: call_agent_def begin_batch_def note_failure_def backoff_def
        record_result_def throw_def release_slot_def Let_def split: prod.splits)

lemma task_trace_simps:
  "task_trace j (call_agent i k p) = task_trace j p @ (if j = i then [InvokeAgent i k] else [])"
  "task_trace j (begin_batch i now p) = task_trace j p @ (if j = i then [InvokeAgent i 0] else [])"
  "task_trace j (note_failure i k e p) = task_trace j p"
  "task_trace j (backoff i a p) =
     task_trace j p @ (if j = i then [Sleep i (2000 * 2 ^ (a - 1))] else [])"
  "task_trace j (snd (record_result i succ res lastErr now p)) = task_trace j p"
  "task_trace j (throw i e p) = task_trace j p"
  "task_trace j (release_slot i p) = task_trace j p"
  by (auto simp: task_trace_def trace_simps effect_task_def)

lemma outcomes_snoc:
  "outcomes j (evs @ [ev]) =
     outcomes j evs @ (case settled_for j ev of None \<Rightarrow> [] | Some out \<Rightarrow> [out])"
  by (simp add: outcomes_def List.map_filter_def split: option.splits)

lemma outcomes_Nil: "outcomes j [] = []"
  by (simp add: outcomes_def List.map_filter_def)

lemma settled_for_simps:
  "settled_for j (Resume i now) = None"
  "settled_for j (TimerFires i) = None"
  "settled_for j (AgentSettles i out now) = (if i = j then Some out else None)"
  by (simp_all add: settled_for_def)

lemma task_inv_start: "tasks_inv (length bs) [] (start_pool options bs)"
proof -
  have t: "task_trace j (start_pool options bs) = []" for j
    by (simp add: task_trace_def start_pool_eq)
  have "task_inv j [] (pcs (start_pool options bs) ! j) le b (task_trace j (start_pool options bs))"
    if "j < length bs" for j le b
    using that by (simp add: pcs_start_pool task_inv_def t)
  then show ?thesis
    by (simp add: tasks_inv_def outcomes_Nil)
qed


text \<open>The moves of one task.\<close>

lemma resume_ok:
  "task_inv i os Granted le b tt \<Longrightarrow> task_inv i os (Invoking 0) le' b' (tt @ [InvokeAgent i 0])"
  by (simp add: task_inv_def)

lemma timer_ok:
  "task_inv i os (Sleeping k) le b tt \<Longrightarrow> task_inv i os (Invoking k) le b (tt @ [InvokeAgent i k])"
  by (auto simp: task_inv_def)

lemma retry_ok:
  assumes "task_inv i os (Invoking k) le b tt" and "k + 1 \<le> max_retries"
  shows "task_inv i (os @ [Rejected e]) (Sleeping (k + 1)) (Some e) (b\<lparr>retries := k + 1\<rparr>)
           (tt @ [Sleep i (2000 * 2 ^ (k + 1 - 1))])"
proof -
  from assms(1) obtain es where es: "os = map Rejected es" "length es = k"
    and tt: "tt = attempts_upto i k"
    by (auto simp: task_inv_def)
  have "os @ [Rejected e] = map Rejected (es @ [e])" "length (es @ [e]) = k + 1"
    "last (es @ [e]) = e"
    using es by simp_all
  then have "\<exists>es'. os @ [Rejected e] = map Rejected es' \<and> length es' = k + 1 \<and>
      retries (b\<lparr>retries := k + 1\<rparr>) = k + 1 \<and> Some e = Some (last es')"
    by (intro exI[of _ "es @ [e]"]) simp
  with assms(2) tt show ?thesis
    by (simp add: task_inv_def)
qed

lemma done_success:
  assumes "task_inv i os (Invoking k) le b tt"
  shows "done_inv i (os @ [Fulfilled r]) (b\<lparr>endTime := t, status := Completed, result := Some r\<rparr>) tt"
proof -
  from assms obtain es where es: "os = map Rejected es" "length es = k"
    "0 < k \<longrightarrow> retries b = k"
    and tt: "tt = attempts_upto i k" and k: "k \<le> max_retries"
    by (auto simp: task_inv_def)
  show ?thesis
    unfolding done_inv_def
    using es tt k by (intro exI[of _ k]) auto
qed

lemma done_failure:
  assumes "task_inv i os (Invoking k) le b tt" and "\<not> k + 1 \<le> max_retries"
  shows "done_inv i (os @ [Rejected m])
           (b\<lparr>retries := k + 1, endTime := t, status := Failed, error := Some m\<rparr>) tt"
proof -
  from assms(1) obtain es where es: "os = map Rejected es" "length es = k"
    and tt: "tt = attempts_upto i k" and k: "k \<le> max_retries"
    by (auto simp: task_inv_def)
  from k assms(2) have km: "k = max_retries" by simp
  have "os @ [Rejected m] = map Rejected (es @ [m])" "last (es @ [m]) = m"
    using es by simp_all
  then have "\<exists>es'. os @ [Rejected m] = map Rejected es' \<and> k = max_retries \<and>
      status (b\<lparr>retries := k + 1, endTime := t, status := Failed, error := Some m\<rparr>) = Failed \<and>
      error (b\<lparr>retries := k + 1, endTime := t, status := Failed, error := Some m\<rparr>) = Some (last es') \<and>
      retries (b\<lparr>retries := k + 1, endTime := t, status := Failed, error := Some m\<rparr>) = Suc max_retries"
    using km by (intro exI[of _ "es @ [m]"]) simp
  then show ?thesis
    unfolding done_inv_def
    using es tt k by (intro exI[of _ k]) simp
qed

lemma ended_ok:
  "done_inv i os b tt \<Longrightarrow> ended c \<Longrightarrow> task_inv i os c le b tt"
  by (cases c) (simp_all add: task_inv_def)

lemma frame_ok:
  assumes "task_inv j os c le b tt" and "c' = c \<or> (c = Waiting \<and> c' = Granted)"
  shows "task_inv j os c' le b tt"
  using assms by (auto simp: task_inv_def)

lemma release_shape:
  assumes g: "gate_inv n cs sem" and ci: "cs ! i = Invoking k"
  shows "(\<exists>c. ended c \<and>
            (case snd (release sem) of None \<Rightarrow> cs[i := Finished]
                                     | Some w \<Rightarrow> cs[i := Finished, w := Granted]) = cs[i := c]) \<or>
         (\<exists>w<n. w \<noteq> i \<and> cs ! w = Waiting \<and>
            (case snd (release sem) of None \<Rightarrow> cs[i := Finished]
                                     | Some w \<Rightarrow> cs[i := Finished, w := Granted]) =
              cs[i := Finished, w := Granted])"
proof -
  from g obtain k0 where k0: "k0 \<le> n" "queue sem = [k0..<n]"
    "\<forall>j<n. (cs ! j = Waiting) = (k0 \<le> j)"
    unfolding gate_inv_def by blast
  show ?thesis
  proof (cases "k0 = n")
    case True
    with k0(2) have "snd (release sem) = None" by (simp add: release_eq)
    then have "ended Finished \<and>
        (case snd (release sem) of None \<Rightarrow> cs[i := Finished]
                                 | Some w \<Rightarrow> cs[i := Finished, w := Granted]) = cs[i := Finished]"
      by simp
    then show ?thesis by blast
  next
    case False
    with k0(1) have kl: "k0 < n" by simp
    with k0(2) have "queue sem = k0 # [Suc k0..<n]" by (simp add: upt_conv_Cons)
    then have r: "snd (release sem) = Some k0" by (simp add: release_eq)
    from k0(3) kl have w: "cs ! k0 = Waiting" by simp
    with ci have "k0 \<noteq> i" by auto
    with r w kl show ?thesis by auto
  qed
qed

lemma tasks_inv_step:
  assumes inv: "tasks_inv n evs p" and g: "gate_inv n (pcs p) (semaphore p)"
      and lb: "length (batches p) = n" and st: "step options ev p = Some p'"
  shows "tasks_inv n (evs @ [ev]) p'"
proof -
  have n: "length (pcs p) = n" using g unfolding gate_inv_def by blast
  then have nt: "length (tasks p) = n" and ne: "length (errs p) = n"
    by (simp_all add: pcs_def errs_def)
  from g obtain k0 where k0: "k0 \<le> n" "queue (semaphore p) = [k0..<n]"
    "\<forall>j<n. (pcs p ! j = Waiting) = (k0 \<le> j)"
    unfolding gate_inv_def by blast
  have old: "task_inv j (outcomes j evs) (pcs p ! j) (errs p ! j) (batches p ! j) (task_trace j p)"
    if "j < n" for j
    using inv that by (simp add: tasks_inv_def)
  have finish: "tasks_inv n (evs @ [ev]) p'"
    if ev: "ev = AgentSettles i out now" and i: "i < length (tasks p)"
      and pi: "pc (tasks p ! i) = Invoking k"
      and sel: "(out = Fulfilled (the res) \<and> succ \<and> res \<noteq> None \<and> q = p \<and>
                  lastErr = lastError (tasks p ! i)) \<or>
                (\<exists>m. out = Rejected m \<and> \<not> succ \<and> res = None \<and> lastErr = Some m \<and>
                   \<not> k + 1 \<le> max_retries \<and> q = note_failure i k m p)"
      and bp: "batches p' = batches (snd (record_result i succ res lastErr now q))"
      and ep: "errs p' = errs q" and tp: "\<And>j. task_trace j p' = task_trace j q"
      and pp: "(\<exists>c. ended c \<and> pcs p' = (pcs p)[i := c]) \<or>
               (\<exists>w<n. w \<noteq> i \<and> pcs p ! w = Waiting \<and>
                  pcs p' = (pcs p)[i := Finished, w := Granted])"
    for i out now k res succ q lastErr
    unfolding tasks_inv_def
  proof (intro allI impI)
    fix j assume j: "j < n"
    from i nt have il: "i < n" by simp
    from old[OF il] pi i
    have oi: "task_inv i (outcomes i evs) (Invoking k) (errs p ! i) (batches p ! i) (task_trace i p)"
      by (simp add: pcs_def)
    have tq: "task_trace j' q = task_trace j' p" for j'
      using sel by (auto simp: task_trace_simps)
    show "task_inv j (outcomes j (evs @ [ev])) (pcs p' ! j) (errs p' ! j) (batches p' ! j)
            (task_trace j p')"
    proof (cases "j = i")
      case True
      have e: "ended (pcs p' ! i)"
        using pp il n by auto
      have d: "done_inv i (outcomes i (evs @ [ev])) (batches p' ! i) (task_trace i p)"
        using sel
      proof
        assume a: "out = Fulfilled (the res) \<and> succ \<and> res \<noteq> None \<and> q = p \<and>
                  lastErr = lastError (tasks p ! i)"
        then obtain r where r: "res = Some r" by auto
        from done_success[OF oi, of r "Some now"] a r ev il lb show ?thesis
          by (simp add: bp batches_record_result outcomes_snoc settled_for_simps)
      next
        assume "\<exists>m. out = Rejected m \<and> \<not> succ \<and> res = None \<and> lastErr = Some m \<and>
                   \<not> k + 1 \<le> max_retries \<and> q = note_failure i k m p"
        then obtain m where a: "out = Rejected m" "\<not> succ" "res = None" "lastErr = Some m"
          "\<not> k + 1 \<le> max_retries" "q = note_failure i k m p" by blast
        from done_failure[OF oi a(5), of m "Some now"] a ev il lb show ?thesis
          by (simp add: bp batches_record_result batches_simps outcomes_snoc settled_for_simps)
      qed
      from ended_ok[OF d e] True show ?thesis
        by (simp add: tp tq)
    next
      case False
      have o: "outcomes j (evs @ [ev]) = outcomes j evs"
        using False ev by (simp add: outcomes_snoc settled_for_simps)
      have b: "batches p' ! j = batches p ! j"
        using False sel by (auto simp: bp batches_record_result batches_simps)
      have le: "errs p' ! j = errs p ! j"
        using False sel by (auto simp: ep errs_simps)
      have c: "pcs p' ! j = pcs p ! j \<or> (pcs p ! j = Waiting \<and> pcs p' ! j = Granted)"
        using pp
      proof
        assume "\<exists>c. ended c \<and> pcs p' = (pcs p)[i := c]"
        with False show ?thesis by auto
      next
        assume "\<exists>w<n. w \<noteq> i \<and> pcs p ! w = Waiting \<and>
                  pcs p' = (pcs p)[i := Finished, w := Granted]"
        then obtain w where w: "w < n" "pcs p ! w = Waiting"
          "pcs p' = (pcs p)[i := Finished, w := Granted]" by blast
        show ?thesis
        proof (cases "j = w")
          case True
          with w n show ?thesis by simp
        next
          case jw: False
          with False w(3) show ?thesis by simp
        qed
      qed
      from frame_ok[OF old[OF j] c] show ?thesis
        by (simp add: o b le tp tq)
    qed
  qed
  from st show ?thesis
  proof (cases rule: step_cases)
    case (resume i now)
    show ?thesis
      unfolding tasks_inv_def
    proof (intro allI impI)
      fix j assume j: "j < n"
      show "task_inv j (outcomes j (evs @ [ev])) (pcs p' ! j) (errs p' ! j) (batches p' ! j)
              (task_trace j p')"
      proof (cases "j = i")
        case True
        from old[OF j] True resume(3) resume(2)
        have "task_inv i (outcomes i evs) Granted (errs p ! i) (batches p ! i) (task_trace i p)"
          by (simp add: pcs_def)
        from resume_ok[OF this] True j n resume(1,4) show ?thesis
          by (simp add: pcs_begin_batch errs_simps task_trace_simps outcomes_snoc settled_for_simps)
      next
        case False
        with old[OF j] resume(1,4) show ?thesis
          by (simp add: pcs_begin_batch errs_simps batches_simps task_trace_simps outcomes_snoc
                settled_for_simps)
      qed
    qed
  next
    case (timer i k)
    show ?thesis
      unfolding tasks_inv_def
    proof (intro allI impI)
      fix j assume j: "j < n"
      show "task_inv j (outcomes j (evs @ [ev])) (pcs p' ! j) (errs p' ! j) (batches p' ! j)
              (task_trace j p')"
      proof (cases "j = i")
        case True
        from old[OF j] True timer(3) timer(2)
        have "task_inv i (outcomes i evs) (Sleeping k) (errs p ! i) (batches p ! i) (task_trace i p)"
          by (simp add: pcs_def)
        from timer_ok[OF this] True j n timer(1,4) show ?thesis
          by (simp add: pcs_call_agent errs_simps batches_simps task_trace_simps outcomes_snoc
                settled_for_simps)
      next
        case False
        with old[OF j] timer(1,4) show ?thesis
          by (simp add: pcs_call_agent errs_simps batches_simps task_trace_simps outcomes_snoc
                settled_for_simps)
      qed
    qed
  next
    case (retry i k e now)
    show ?thesis
      unfolding tasks_inv_def
    proof (intro allI impI)
      fix j assume j: "j < n"
      show "task_inv j (outcomes j (evs @ [ev])) (pcs p' ! j) (errs p' ! j) (batches p' ! j)
              (task_trace j p')"
      proof (cases "j = i")
        case True
        from old[OF j] True retry(3) retry(2)
        have "task_inv i (outcomes i evs) (Invoking k) (errs p ! i) (batches p ! i) (task_trace i p)"
          by (simp add: pcs_def)
        from retry_ok[OF this retry(4), of e] True j n ne lb retry(1,5) show ?thesis
          by (simp add: pcs_backoff pcs_note_failure errs_simps batches_simps task_trace_simps
                outcomes_snoc settled_for_simps)
      next
        case False
        with old[OF j] retry(1,5) show ?thesis
          by (simp add: pcs_backoff pcs_note_failure errs_simps batches_simps task_trace_simps
                outcomes_snoc settled_for_simps)
      qed
    qed
  next
    case (threw i k out now q succ res lastErr e)
    then have q: "pcs q = pcs p" by (auto simp: pcs_note_failure)
    have "ended (Threw e) \<and> pcs p' = (pcs p)[i := Threw e]"
      using threw(5) q by (simp add: pcs_throw pcs_record_result)
    then have pp: "(\<exists>c. ended c \<and> pcs p' = (pcs p)[i := c]) \<or>
        (\<exists>w<n. w \<noteq> i \<and> pcs p ! w = Waiting \<and> pcs p' = (pcs p)[i := Finished, w := Granted])"
      by blast
    from threw(5) have "batches p' = batches (snd (record_result i succ res lastErr now q))"
      "errs p' = errs q" "\<And>j. task_trace j p' = task_trace j q"
      by (simp_all add: batches_simps errs_simps task_trace_simps)
    with threw(1-4) pp show ?thesis by (intro finish[of i out now k res succ q lastErr]) simp_all
  next
    case (released i k out now q succ res lastErr)
    then have q: "pcs q = pcs p" "semaphore q = semaphore p"
      by (auto simp: pcs_note_failure semaphore_simps)
    from released(2,3) have pi: "pcs p ! i = Invoking k" by (simp add: pcs_def)
    have "pcs p' = (case snd (release (semaphore p)) of
                      None \<Rightarrow> (pcs p)[i := Finished]
                    | Some w \<Rightarrow> (pcs p)[i := Finished, w := Granted])"
      using released(5) q
      by (simp add: pcs_release_slot pcs_record_result semaphore_simps split: option.splits)
    with release_shape[OF g pi]
    have pp: "(\<exists>c. ended c \<and> pcs p' = (pcs p)[i := c]) \<or>
        (\<exists>w<n. w \<noteq> i \<and> pcs p ! w = Waiting \<and> pcs p' = (pcs p)[i := Finished, w := Granted])"
      by simp
    from released(5) have "batches p' = batches (snd (record_result i succ res lastErr now q))"
      "errs p' = errs q" "\<And>j. task_trace j p' = task_trace j q"
      by (simp_all add: batches_simps errs_simps task_trace_simps)
    with released(1-4) pp show ?thesis by (intro finish[of i out now k res succ q lastErr]) simp_all
  qed
qed

lemma tasks_inv_run:
  assumes "run options evs (start_pool options bs) = Some p"
  shows "tasks_inv (length bs) evs p"
  using assms
proof (induction rule: run_induct)
  case start
  show ?case by (rule task_inv_start)
next
  case (step evs q ev q')
  note r = \<open>run options evs (start_pool options bs) = Some q\<close>
  have "length (batches q) = length bs"
    using term_inv_run[OF r] unfolding term_inv_def by blast
  with gate_inv_run[OF r] \<open>tasks_inv (length bs) evs q\<close> \<open>step options ev q = Some q'\<close>
  show ?case by (intro tasks_inv_step[of "length bs" evs q options ev q']) simp_all
qed

subsection \<open>Every run is finite, and a pending pool can move\<close>

lemma sum_update:
  "i < length xs \<Longrightarrow>
     sum_list (map f (xs[i := y])) + f (xs ! i) = sum_list (map f xs) + (f y :: nat)"
proof (induction xs arbitrary: i)
  case Nil
  then show ?case by simp
next
  case (Cons x xs)
  show ?case
  proof (cases i)
    case 0
    then show ?thesis by simp
  next
    case (Suc j)
    with Cons.prems have "j < length xs" by simp
    from Cons.IH[OF this] Suc show ?thesis by simp
  qed
qed

lemma weight_local:
  assumes "local_move c c'" and "\<forall>k. c = Invoking k \<or> c = Sleeping k \<longrightarrow> k \<le> max_retries"
  shows "weight c' < weight c"
  using assms
  by (cases c) (auto simp: local_move_def weight_def max_retries_def)

lemma weight_step:
  assumes g: "gate_inv n (pcs p) (semaphore p)" and st: "step options ev p = Some p'"
  shows "sum_list (map weight (pcs p')) < sum_list (map weight (pcs p))"
proof -
  have n: "length (pcs p) = n"
    and bnd: "\<forall>j<n. \<forall>k. pcs p ! j = Invoking k \<or> pcs p ! j = Sleeping k \<longrightarrow> k \<le> max_retries"
    using g unfolding gate_inv_def by blast+
  from step_pcs[OF st] obtain i where i: "i < length (pcs p)"
    and d: "(\<exists>c'. local_move (pcs p ! i) c' \<and> pcs p' = (pcs p)[i := c'] \<and>
                  semaphore p' = semaphore p) \<or>
           (\<exists>k. pcs p ! i = Invoking k \<and> semaphore p' = fst (release (semaphore p)) \<and>
                 pcs p' = (case snd (release (semaphore p)) of
                             None \<Rightarrow> (pcs p)[i := Finished]
                           | Some w \<Rightarrow> (pcs p)[i := Finished, w := Granted]))"
    by blast
  from bnd i n have bi: "\<forall>k. pcs p ! i = Invoking k \<or> pcs p ! i = Sleeping k \<longrightarrow> k \<le> max_retries"
    by simp
  from d show ?thesis
  proof
    assume "\<exists>c'. local_move (pcs p ! i) c' \<and> pcs p' = (pcs p)[i := c'] \<and>
                  semaphore p' = semaphore p"
    then obtain c' where c': "local_move (pcs p ! i) c'" "pcs p' = (pcs p)[i := c']" by blast
    from weight_local[OF c'(1) bi] sum_update[OF i, of weight c'] c'(2)
    show ?thesis by simp
  next
    assume "\<exists>k. pcs p ! i = Invoking k \<and> semaphore p' = fst (release (semaphore p)) \<and>
                 pcs p' = (case snd (release (semaphore p)) of
                             None \<Rightarrow> (pcs p)[i := Finished]
                           | Some w \<Rightarrow> (pcs p)[i := Finished, w := Granted])"
    then obtain k where k: "pcs p ! i = Invoking k"
      and p': "pcs p' = (case snd (release (semaphore p)) of
                             None \<Rightarrow> (pcs p)[i := Finished]
                           | Some w \<Rightarrow> (pcs p)[i := Finished, w := Granted])"
      by blast
    from bi k have "k \<le> max_retries" by simp
    then have wi: "0 < weight (pcs p ! i)"
      by (simp add: k weight_def max_retries_def)
    from release_shape[OF g k] p'
    have "(\<exists>c. ended c \<and> pcs p' = (pcs p)[i := c]) \<or>
          (\<exists>w<n. w \<noteq> i \<and> pcs p ! w = Waiting \<and> pcs p' = (pcs p)[i := Finished, w := Granted])"
      by simp
    then show ?thesis
    proof
      assume "\<exists>c. ended c \<and> pcs p' = (pcs p)[i := c]"
      then obtain c where c: "ended c" "pcs p' = (pcs p)[i := c]" by blast
      from c(1) have "weight c = 0" by (cases c) (simp_all add: weight_def ended_def)
      with sum_update[OF i, of weight c] c(2) wi show ?thesis by simp
    next
      assume "\<exists>w<n. w \<noteq> i \<and> pcs p ! w = Waiting \<and> pcs p' = (pcs p)[i := Finished, w := Granted]"
      then obtain w where w: "w < n" "w \<noteq> i" "pcs p ! w = Waiting"
        "pcs p' = (pcs p)[i := Finished, w := Granted]" by blast
      have a: "sum_list (map weight ((pcs p)[i := Finished])) + weight (pcs p ! i) =
               sum_list (map weight (pcs p))"
        using sum_update[OF i, of weight Finished] by (simp add: weight_def)
      have wl: "w < length ((pcs p)[i := Finished])" using w(1) n by simp
      have "sum_list (map weight ((pcs p)[i := Finished, w := Granted])) =
            sum_list (map weight ((pcs p)[i := Finished]))"
        using sum_update[OF wl, of weight Granted] w(2,3) by (simp add: weight_def)
      with a wi w(4) show ?thesis by simp
    qed
  qed
qed

lemma weight_start:
  "sum_list (map weight (map (\<lambda>i. if i < m then Granted else Waiting) [0..<n])) = 6 * n"
  by (induction n) (simp_all add: weight_def)

lemma bound_run:
  assumes "run options evs (start_pool options bs) = Some p"
  shows "length evs + sum_list (map weight (pcs p)) \<le> 6 * length bs"
  using assms
proof (induction rule: run_induct)
  case start
  show ?case by (simp only: pcs_start_pool weight_start) simp
next
  case (step evs q ev q')
  from weight_step[OF gate_inv_run[OF \<open>run options evs (start_pool options bs) = Some q\<close>]
      \<open>step options ev q = Some q'\<close>]
    \<open>length evs + sum_list (map weight (pcs q)) \<le> 6 * length bs\<close>
  show ?case by simp
qed

lemma pool_promise_None:
  assumes "pool_promise p = None"
  shows "(\<forall>c\<in>set (pcs p). \<forall>e. c \<noteq> Threw e) \<and> (\<exists>c\<in>set (pcs p). c \<noteq> Finished)"
proof -
  from assms have a: "List.map_filter threw (tasks p) = []"
    and b: "\<not> list_all (\<lambda>t. pc t = Finished) (tasks p)"
    by (auto simp: pool_promise_def split: list.splits if_splits)
  from a have "\<forall>t\<in>set (tasks p). threw t = None" by (simp add: map_filter_threw_Nil)
  then have "\<forall>c\<in>set (pcs p). \<forall>e. c \<noteq> Threw e"
    by (auto simp: pcs_def threw_def)
  moreover from b have "\<exists>c\<in>set (pcs p). c \<noteq> Finished"
    by (auto simp: pcs_def list_all_iff)
  ultimately show ?thesis by blast
qed

lemma progress:
  assumes g: "gate_inv n (pcs p) (semaphore p)" and pend: "pool_promise p = None"
  shows "\<exists>ev. step options ev p \<noteq> None"
proof -
  have n: "length (pcs p) = n" and pos: "0 < sem_max (semaphore p)"
    and cur: "current (semaphore p) = int (length (filter holds_slot (pcs p)))"
    and full: "queue (semaphore p) \<noteq> [] \<longrightarrow> current (semaphore p) = sem_max (semaphore p)"
    using g unfolding gate_inv_def by blast+
  from g obtain k0 where k0: "k0 \<le> n" "queue (semaphore p) = [k0..<n]"
    "\<forall>j<n. (pcs p ! j = Waiting) = (k0 \<le> j)"
    unfolding gate_inv_def by blast
  from pool_promise_None[OF pend]
  have nt: "\<forall>c\<in>set (pcs p). \<forall>e. c \<noteq> Threw e" and nf: "\<exists>c\<in>set (pcs p). c \<noteq> Finished"
    by simp_all
  show ?thesis
  proof (cases "\<exists>j<n. holds_slot (pcs p ! j)")
    case True
    then obtain j where j: "j < n" "holds_slot (pcs p ! j)" by blast
    then have jt: "j < length (tasks p)" and pj: "pc (tasks p ! j) = pcs p ! j"
      using n by (simp_all add: pcs_def)
    from j n nt have "\<forall>e. pcs p ! j \<noteq> Threw e" by (metis nth_mem)
    with j(2) consider "pcs p ! j = Granted" | k where "pcs p ! j = Sleeping k"
      | k where "pcs p ! j = Invoking k"
      by (cases "pcs p ! j") (auto simp: holds_slot_def)
    then show ?thesis
    proof cases
      case 1
      with jt pj have "step options (Resume j 0) p \<noteq> None" by (simp add: step_def)
      then show ?thesis ..
    next
      case (2 k)
      with jt pj have "step options (TimerFires j) p \<noteq> None" by (simp add: step_def)
      then show ?thesis ..
    next
      case (3 k)
      with jt pj have "step options (AgentSettles j (Fulfilled []) 0) p \<noteq> None"
        by (simp add: step_def)
      then show ?thesis ..
    qed
  next
    case False
    then have "filter holds_slot (pcs p) = []"
      using n by (auto simp: filter_empty_conv in_set_conv_nth)
    with cur pos full have "queue (semaphore p) = []" by auto
    with k0(2) have "[k0..<n] = []" by simp
    with k0(1) have "k0 = n" by auto
    with k0(3) have nw: "\<forall>j<n. pcs p ! j \<noteq> Waiting" by simp
    from nf obtain j where j: "j < n" "pcs p ! j \<noteq> Finished"
      using n by (auto simp: in_set_conv_nth)
    with False nw have False
      by (cases "pcs p ! j") (auto simp: holds_slot_def)
    then show ?thesis ..
  qed
qed

text \<open>
  Quiescence is the absence of an enabled event; every reachable state has a run to a
  quiescent one; and with a callback that returns, a quiescent pool has ended.
\<close>

lemma quiescent_iff:
  "quiescent p \<longleftrightarrow> (\<forall>ev. step options ev p = None)"
proof
  assume q: "quiescent p"
  have nr: "\<not> resumable (pc (tasks p ! i))" if "i < length (tasks p)" for i
    using q that by (simp add: quiescent_def pcs_def list_all_length)
  show "\<forall>ev. step options ev p = None"
  proof
    fix ev
    show "step options ev p = None"
    proof (cases ev)
      case (Resume i now)
      with nr[of i] show ?thesis by (auto simp: step_def resumable_def)
    next
      case (TimerFires i)
      with nr[of i] show ?thesis
        by (auto simp: step_def resumable_def split: task_pc.splits)
    next
      case (AgentSettles i outcome now)
      with nr[of i] show ?thesis
        by (auto simp: step_def resumable_def split: task_pc.splits)
    qed
  qed
next
  assume st: "\<forall>ev. step options ev p = None"
  show "quiescent p"
    unfolding quiescent_def pcs_def list_all_length
  proof (intro allI impI)
    fix i assume "i < length (map pc (tasks p))"
    then have i: "i < length (tasks p)" by simp
    show "\<not> resumable (map pc (tasks p) ! i)"
    proof
      assume "resumable (map pc (tasks p) ! i)"
      with i have r: "resumable (pc (tasks p ! i))" by simp
      then consider "pc (tasks p ! i) = Granted" | k where "pc (tasks p ! i) = Sleeping k"
        | k where "pc (tasks p ! i) = Invoking k"
        by (cases "pc (tasks p ! i)") (auto simp: resumable_def)
      then show False
      proof cases
        case 1
        with i have "step options (Resume i 0) p \<noteq> None" by (simp add: step_def)
        with st show False by simp
      next
        case (2 k)
        with i have "step options (TimerFires i) p \<noteq> None" by (simp add: step_def)
        with st show False by simp
      next
        case (3 k)
        with i have "step options (AgentSettles i (Fulfilled []) 0) p \<noteq> None"
          by (simp add: step_def)
        with st show False by simp
      qed
    qed
  qed
qed

lemma run_append:
  "run options (evs @ evs') p =
     (case run options evs p of None \<Rightarrow> None | Some q \<Rightarrow> run options evs' q)"
  by (induction evs arbitrary: p) (auto split: option.splits)

lemma run_to_quiescence:
  assumes "gate_inv n (pcs p) (semaphore p)"
  shows "\<exists>evs' p'. run options evs' p = Some p' \<and> quiescent p'"
  using assms
proof (induction "sum_list (map weight (pcs p))" arbitrary: p rule: less_induct)
  case less
  show ?case
  proof (cases "quiescent p")
    case True
    then have "run options [] p = Some p \<and> quiescent p" by simp
    then show ?thesis by blast
  next
    case False
    then obtain ev where "step options ev p \<noteq> None"
      using quiescent_iff[of p options] by blast
    then obtain p1 where st: "step options ev p = Some p1" by auto
    have "sum_list (map weight (pcs p1)) < sum_list (map weight (pcs p))"
      by (rule weight_step[OF less.prems st])
    from less.hyps[OF this gate_inv_step[OF less.prems st]]
    obtain evs' p' where "run options evs' p1 = Some p'" "quiescent p'" by blast
    with st have "run options (ev # evs') p = Some p' \<and> quiescent p'" by simp
    then show ?thesis by blast
  qed
qed

lemma quiescent_terminal:
  assumes r: "run options evs (start_pool options bs) = Some p"
      and cb: "\<forall>br pr. call_back options br pr = Fulfilled ()"
      and q: "quiescent p"
  shows "(\<forall>j<length bs. status (batches p ! j) = Completed \<or> status (batches p ! j) = Failed) \<and>
         completed p + failed p = length bs \<and>
         pool_promise p = Some (Fulfilled (results p))"
proof -
  have n: "length (pcs p) = length bs"
    using gate_inv_run[OF r] unfolding gate_inv_def by blast
  have tm: "\<forall>i<length bs. ended (pcs p ! i) \<longrightarrow>
        status (batches p ! i) = Completed \<or> status (batches p ! i) = Failed"
    and cn: "completed p + failed p = length (filter ended (pcs p))"
    using term_inv_run[OF r] unfolding term_inv_def by blast+
  from q have "\<forall>ev. step options ev p = None"
    by (simp add: quiescent_iff[of p options])
  with progress[OF gate_inv_run[OF r], of options] have "pool_promise p \<noteq> None" by auto
  moreover have "pool_promise p \<noteq> Some (Rejected e)" for e
  proof
    assume "pool_promise p = Some (Rejected e)"
    from pool_promise_Rejected[OF this] obtain i e' where "i < length (pcs p)" "pcs p ! i = Threw e'"
      by blast
    then have "Threw e' \<in> set (pcs p)" by (metis nth_mem)
    with no_throw_run[OF r cb] show False by blast
  qed
  ultimately obtain rs where rs: "pool_promise p = Some (Fulfilled rs)"
    by (cases "pool_promise p") (auto, metis settled.exhaust)
  from pool_promise_Fulfilled[OF rs] n
  have e: "rs = results p" and fin: "\<forall>i<length bs. pcs p ! i = Finished" by simp_all
  have "filter ended (pcs p) = pcs p"
    using fin n by (auto simp: filter_id_conv in_set_conv_nth ended_def)
  with cn n have "completed p + failed p = length bs" by simp
  moreover have "status (batches p ! j) = Completed \<or> status (batches p ! j) = Failed"
    if "j < length bs" for j
    using that fin tm by (simp add: ended_def)
  ultimately show ?thesis using rs e by simp
qed

subsection \<open>Retries\<close>

lemma invoke_count: "length (filter is_invoke (attempts_upto i k)) = Suc k"
  by (induction k) (simp_all add: is_invoke_def)

lemma attempts_upto_2:
  "attempts_upto i max_retries =
     [InvokeAgent i 0, Sleep i 2000, InvokeAgent i 1, Sleep i 4000, InvokeAgent i 2]"
  by (simp add: max_retries_def numeral_2_eq_2)

lemma task_inv_trace:
  assumes "task_inv i os c le b tt"
  shows "tt = [] \<or> (\<exists>k\<le>max_retries. tt = attempts_upto i k \<or>
           (k < max_retries \<and> tt = attempts_upto i k @ [Sleep i (2000 * 2 ^ k)]))"
proof (cases c)
  case Waiting
  with assms show ?thesis by (simp add: task_inv_def)
next
  case Granted
  with assms show ?thesis by (simp add: task_inv_def)
next
  case (Sleeping k)
  with assms obtain k' where "k = Suc k'" "k \<le> max_retries"
    "tt = attempts_upto i k' @ [Sleep i (2000 * 2 ^ k')]"
    by (auto simp: task_inv_def)
  then have "k' \<le> max_retries \<and> k' < max_retries \<and>
      tt = attempts_upto i k' @ [Sleep i (2000 * 2 ^ k')]" by simp
  then show ?thesis by blast
next
  case (Invoking k)
  with assms have "k \<le> max_retries \<and> tt = attempts_upto i k" by (simp add: task_inv_def)
  then show ?thesis by blast
next
  case Finished
  with assms show ?thesis by (auto simp: task_inv_def done_inv_def)
next
  case (Threw e)
  with assms show ?thesis by (auto simp: task_inv_def done_inv_def)
qed

lemma task_inv_unsettled:
  assumes "task_inv i os c le b tt" and "\<not> ended c"
  shows "\<exists>es. os = map Rejected es"
  using assms by (cases c) (auto simp: task_inv_def)

lemma task_inv_ended:
  assumes "task_inv i os c le b tt" and "ended c"
  shows "done_inv i os b tt"
  using assms by (cases c) (auto simp: task_inv_def)

text \<open>
  Claim C3, as amended. In every reachable state and for every batch \<open>i\<close>: the agent
  has been invoked for the batch at most \<open>max_retries + 1 = 3\<close> times; the batch's
  invocations and sleeps are an initial part of: attempt 0, sleep 2000 ms, attempt 1,
  sleep 4000 ms, attempt 2 (before retry attempt \<open>k\<close> the sleep is \<open>2000 * 2 ^ (k - 1)\<close>
  ms); if the agent's outcomes for the batch were two failures and then a success, the
  batch is \<open>completed\<close> with \<open>retries = 2\<close> and holds the result; if the batch's task has
  ended and the agent never succeeded for it, the batch is \<open>failed\<close> after exactly 3
  invocations and 3 failures and holds the message of the last one.

  The other batches: whatever the agent does, a run has at most 6 events per batch,
  some event is enabled as long as the promise of the pool is pending, and a pool is
  quiescent exactly when no event is enabled. If the completion callback
  is absent or returns normally on every call, then every batch of a quiescent pool is
  \<open>completed\<close> or \<open>failed\<close>, and every run can be continued to a quiescent pool. So every
  schedule that keeps delivering the enabled events brings all batches to a terminal
  state, whichever of them fail.
\<close>

theorem retry_semantics:
  assumes "processAllBatches bs options evs = Some p" and "i < length bs"
  shows "length (filter is_invoke (task_trace i p)) \<le> max_retries + 1 \<and> max_retries + 1 = 3 \<and>
         (task_trace i p = [] \<or>
          (\<exists>k\<le>max_retries. task_trace i p = attempts_upto i k \<or>
             (k < max_retries \<and> task_trace i p = attempts_upto i k @ [Sleep i (2000 * 2 ^ k)]))) \<and>
         attempts_upto i max_retries =
           [InvokeAgent i 0, Sleep i 2000, InvokeAgent i 1, Sleep i 4000, InvokeAgent i 2] \<and>
         (\<forall>e1 e2 r. outcomes i evs = [Rejected e1, Rejected e2, Fulfilled r] \<longrightarrow>
            status (batches p ! i) = Completed \<and> retries (batches p ! i) = 2 \<and>
            result (batches p ! i) = Some r) \<and>
         (ended (pcs p ! i) \<and> (\<forall>r. Fulfilled r \<notin> set (outcomes i evs)) \<longrightarrow>
            status (batches p ! i) = Failed \<and>
            length (filter is_invoke (task_trace i p)) = 3 \<and> length (outcomes i evs) = 3 \<and>
            (\<exists>e. last (outcomes i evs) = Rejected e \<and> error (batches p ! i) = Some e)) \<and>
         length evs \<le> 6 * length bs \<and>
         (pool_promise p = None \<longrightarrow> (\<exists>ev. step options ev p \<noteq> None)) \<and>
         (quiescent p \<longleftrightarrow> (\<forall>ev. step options ev p = None)) \<and>
         ((\<forall>batchResult progress. call_back options batchResult progress = Fulfilled ()) \<longrightarrow>
            (quiescent p \<longrightarrow>
               (\<forall>j<length bs. status (batches p ! j) = Completed \<or>
                                status (batches p ! j) = Failed)) \<and>
            (\<exists>evs' p'. processAllBatches bs options (evs @ evs') = Some p' \<and> quiescent p' \<and>
               (\<forall>j<length bs. status (batches p' ! j) = Completed \<or>
                                status (batches p' ! j) = Failed)))"
proof -
  from assms(1) have r: "run options evs (start_pool options bs) = Some p"
    by (simp add: processAllBatches_def)
  note g = gate_inv_run[OF r]
  have t: "task_inv i (outcomes i evs) (pcs p ! i) (errs p ! i) (batches p ! i) (task_trace i p)"
    using tasks_inv_run[OF r] assms(2) by (simp add: tasks_inv_def)
  have shape: "task_trace i p = [] \<or>
          (\<exists>k\<le>max_retries. task_trace i p = attempts_upto i k \<or>
             (k < max_retries \<and> task_trace i p = attempts_upto i k @ [Sleep i (2000 * 2 ^ k)]))"
    by (rule task_inv_trace[OF t])
  have count: "length (filter is_invoke (task_trace i p)) \<le> max_retries + 1"
    using shape by (auto simp: invoke_count is_invoke_def)
  have succ: "status (batches p ! i) = Completed \<and> retries (batches p ! i) = 2 \<and>
            result (batches p ! i) = Some r"
    if os: "outcomes i evs = [Rejected e1, Rejected e2, Fulfilled r]" for e1 e2 r
  proof -
    have "ended (pcs p ! i)"
    proof (rule ccontr)
      assume "\<not> ended (pcs p ! i)"
      from task_inv_unsettled[OF t this] obtain es where "outcomes i evs = map Rejected es" ..
      with os have "last (map Rejected es) = Fulfilled r" by simp
      moreover from os \<open>outcomes i evs = map Rejected es\<close> have "es \<noteq> []" by auto
      ultimately show False by (simp add: last_map)
    qed
    from task_inv_ended[OF t this] obtain k where k: "k \<le> max_retries"
      "length (outcomes i evs) = Suc k"
      and d: "(\<exists>es r. outcomes i evs = map Rejected es @ [Fulfilled r] \<and>
                 status (batches p ! i) = Completed \<and> result (batches p ! i) = Some r \<and>
                 (0 < k \<longrightarrow> retries (batches p ! i) = k)) \<or>
              (\<exists>es. outcomes i evs = map Rejected es \<and> k = max_retries \<and>
                 status (batches p ! i) = Failed \<and> error (batches p ! i) = Some (last es) \<and>
                 retries (batches p ! i) = Suc max_retries)"
      unfolding done_inv_def by blast
    from k(2) os have k2: "k = 2" by simp
    from d show ?thesis
    proof
      assume "\<exists>es r. outcomes i evs = map Rejected es @ [Fulfilled r] \<and>
                 status (batches p ! i) = Completed \<and> result (batches p ! i) = Some r \<and>
                 (0 < k \<longrightarrow> retries (batches p ! i) = k)"
      then obtain es r' where a: "outcomes i evs = map Rejected es @ [Fulfilled r']"
        "status (batches p ! i) = Completed" "result (batches p ! i) = Some r'"
        "0 < k \<longrightarrow> retries (batches p ! i) = k" by blast
      from a(1) os have "last (map Rejected es @ [Fulfilled r']) = Fulfilled r" by simp
      then have "r' = r" by simp
      with a k2 show ?thesis by simp
    next
      assume "\<exists>es. outcomes i evs = map Rejected es \<and> k = max_retries \<and>
                 status (batches p ! i) = Failed \<and> error (batches p ! i) = Some (last es) \<and>
                 retries (batches p ! i) = Suc max_retries"
      then obtain es where "outcomes i evs = map Rejected es" by blast
      with os have "last (map Rejected es) = Fulfilled r" "es \<noteq> []" by auto
      then show ?thesis by (simp add: last_map)
    qed
  qed
  have fail: "status (batches p ! i) = Failed \<and>
            length (filter is_invoke (task_trace i p)) = 3 \<and> length (outcomes i evs) = 3 \<and>
            (\<exists>e. last (outcomes i evs) = Rejected e \<and> error (batches p ! i) = Some e)"
    if e: "ended (pcs p ! i)" and nf: "\<forall>r. Fulfilled r \<notin> set (outcomes i evs)"
  proof -
    from task_inv_ended[OF t e] obtain k where k: "k \<le> max_retries"
      "task_trace i p = attempts_upto i k" "length (outcomes i evs) = Suc k"
      and d: "(\<exists>es r. outcomes i evs = map Rejected es @ [Fulfilled r] \<and>
                 status (batches p ! i) = Completed \<and> result (batches p ! i) = Some r \<and>
                 (0 < k \<longrightarrow> retries (batches p ! i) = k)) \<or>
              (\<exists>es. outcomes i evs = map Rejected es \<and> k = max_retries \<and>
                 status (batches p ! i) = Failed \<and> error (batches p ! i) = Some (last es) \<and>
                 retries (batches p ! i) = Suc max_retries)"
      unfolding done_inv_def by blast
    from d nf obtain es where es: "outcomes i evs = map Rejected es" "k = max_retries"
      "status (batches p ! i) = Failed" "error (batches p ! i) = Some (last es)"
      by auto
    from es(1) k(3) have "es \<noteq> []" by auto
    with es(1) have "last (outcomes i evs) = Rejected (last es)" by (simp add: last_map)
    with es k show ?thesis
      by (simp add: invoke_count max_retries_def)
  qed
  have bound: "length evs \<le> 6 * length bs"
    using bound_run[OF r] by simp
  have prog: "pool_promise p = None \<longrightarrow> (\<exists>ev. step options ev p \<noteq> None)"
    using progress[OF g] by blast
  have three: "max_retries + 1 = 3" by (simp add: max_retries_def)
  have qi: "quiescent p \<longleftrightarrow> (\<forall>ev. step options ev p = None)"
    by (rule quiescent_iff)
  have others: "(quiescent p \<longrightarrow>
               (\<forall>j<length bs. status (batches p ! j) = Completed \<or>
                                status (batches p ! j) = Failed)) \<and>
            (\<exists>evs' p'. processAllBatches bs options (evs @ evs') = Some p' \<and> quiescent p' \<and>
               (\<forall>j<length bs. status (batches p' ! j) = Completed \<or>
                                status (batches p' ! j) = Failed))"
    if cb: "\<forall>batchResult progress. call_back options batchResult progress = Fulfilled ()"
  proof
    show "quiescent p \<longrightarrow>
            (\<forall>j<length bs. status (batches p ! j) = Completed \<or> status (batches p ! j) = Failed)"
      using quiescent_terminal[OF r cb] by blast
    from run_to_quiescence[OF g, of options]
    obtain evs' p' where e: "run options evs' p = Some p'" "quiescent p'" by blast
    from r e(1) have r': "run options (evs @ evs') (start_pool options bs) = Some p'"
      by (simp add: run_append)
    from quiescent_terminal[OF r' cb e(2)]
    have "\<forall>j<length bs. status (batches p' ! j) = Completed \<or> status (batches p' ! j) = Failed"
      by blast
    with r' e(2)
    have "processAllBatches bs options (evs @ evs') = Some p' \<and> quiescent p' \<and>
          (\<forall>j<length bs. status (batches p' ! j) = Completed \<or> status (batches p' ! j) = Failed)"
      by (simp add: processAllBatches_def)
    then show "\<exists>evs' p'. processAllBatches bs options (evs @ evs') = Some p' \<and> quiescent p' \<and>
               (\<forall>j<length bs. status (batches p' ! j) = Completed \<or>
                                status (batches p' ! j) = Failed)"
      by blast
  qed
  from count three shape attempts_upto_2 succ fail
  have first: "length (filter is_invoke (task_trace i p)) \<le> max_retries + 1 \<and> max_retries + 1 = 3 \<and>
         (task_trace i p = [] \<or>
          (\<exists>k\<le>max_retries. task_trace i p = attempts_upto i k \<or>
             (k < max_retries \<and> task_trace i p = attempts_upto i k @ [Sleep i (2000 * 2 ^ k)]))) \<and>
         attempts_upto i max_retries =
           [InvokeAgent i 0, Sleep i 2000, InvokeAgent i 1, Sleep i 4000, InvokeAgent i 2] \<and>
         (\<forall>e1 e2 r. outcomes i evs = [Rejected e1, Rejected e2, Fulfilled r] \<longrightarrow>
            status (batches p ! i) = Completed \<and> retries (batches p ! i) = 2 \<and>
            result (batches p ! i) = Some r) \<and>
         (ended (pcs p ! i) \<and> (\<forall>r. Fulfilled r \<notin> set (outcomes i evs)) \<longrightarrow>
            status (batches p ! i) = Failed \<and>
            length (filter is_invoke (task_trace i p)) = 3 \<and> length (outcomes i evs) = 3 \<and>
            (\<exists>e. last (outcomes i evs) = Rejected e \<and> error (batches p ! i) = Some e))"
    by blast
  from others have second:
    "(\<forall>batchResult progress. call_back options batchResult progress = Fulfilled ()) \<longrightarrow>
            (quiescent p \<longrightarrow>
               (\<forall>j<length bs. status (batches p ! j) = Completed \<or>
                                status (batches p ! j) = Failed)) \<and>
            (\<exists>evs' p'. processAllBatches bs options (evs @ evs') = Some p' \<and> quiescent p' \<and>
               (\<forall>j<length bs. status (batches p' ! j) = Completed \<or>
                                status (batches p' ! j) = Failed))"
    by (rule impI)
  from first bound prog qi second show ?thesis
    by (elim conjE, intro conjI) assumption+
qed

theorem retry_semantics_witness:
  "\<exists>p q. processAllBatches ex_batches ex_pool_options ex_events = Some p \<and>
     (0::nat) < length ex_batches \<and> (2::nat) < length ex_batches \<and>
     outcomes 0 ex_events = [Rejected ''e0'', Rejected ''e1'', Fulfilled ''ok''] \<and>
     status (batches p ! 0) = Completed \<and> retries (batches p ! 0) = 2 \<and>
     result (batches p ! 0) = Some ''ok'' \<and>
     ended (pcs p ! 2) \<and>
     outcomes 2 ex_events = [Rejected ''f0'', Rejected ''f1'', Rejected ''f2''] \<and>
     status (batches p ! 2) = Failed \<and> error (batches p ! 2) = Some ''f2'' \<and>
     length (filter is_invoke (task_trace 2 p)) = 3 \<and>
     (\<forall>batchResult progress. call_back ex_pool_options batchResult progress = Fulfilled ()) \<and>
     quiescent p \<and>
     (\<forall>j<length ex_batches. status (batches p ! j) = Completed \<or>
                              status (batches p ! j) = Failed) \<and>
     processAllBatches ex_batches ex_pool_options (take 2 ex_events) = Some q \<and>
     pool_promise q = None \<and> (\<exists>ev. step ex_pool_options ev q \<noteq> None) \<and>
     (\<exists>evs' q'. processAllBatches ex_batches ex_pool_options (take 2 ex_events @ evs') = Some q' \<and>
        quiescent q' \<and>
        (\<forall>j<length ex_batches. status (batches q' ! j) = Completed \<or>
                                 status (batches q' ! j) = Failed))"
proof -
  have e: "map_option (\<lambda>p. (ended (pcs p ! 2), quiescent p))
             (processAllBatches ex_batches ex_pool_options ex_events) = Some (True, True)"
    by code_simp
  then obtain p where p: "processAllBatches ex_batches ex_pool_options ex_events = Some p"
    and e2: "ended (pcs p ! 2)" and qp: "quiescent p"
    by auto
  have f: "map_option pool_promise
             (processAllBatches ex_batches ex_pool_options (take 2 ex_events)) = Some None"
    by code_simp
  then obtain q where q: "processAllBatches ex_batches ex_pool_options (take 2 ex_events) = Some q"
    and pq: "pool_promise q = None"
    by auto
  have l0: "(0::nat) < length ex_batches" and l2: "(2::nat) < length ex_batches"
    by (simp_all add: ex_batches_def)
  have o0: "outcomes 0 ex_events = [Rejected ''e0'', Rejected ''e1'', Fulfilled ''ok'']"
    by code_simp
  have o2: "outcomes 2 ex_events = [Rejected ''f0'', Rejected ''f1'', Rejected ''f2'']"
    by code_simp
  have nf: "\<forall>r. Fulfilled r \<notin> set (outcomes 2 ex_events)"
    by (simp add: o2)
  have cb: "\<forall>batchResult progress. call_back ex_pool_options batchResult progress = Fulfilled ()"
    by (simp add: call_back_def ex_pool_options_def)
  from retry_semantics[OF p l0] o0
  have a: "status (batches p ! 0) = Completed \<and> retries (batches p ! 0) = 2 \<and>
           result (batches p ! 0) = Some ''ok''"
    by blast
  from retry_semantics[OF p l2] e2 nf
  have b: "status (batches p ! 2) = Failed \<and> length (filter is_invoke (task_trace 2 p)) = 3 \<and>
           (\<exists>e. last (outcomes 2 ex_events) = Rejected e \<and> error (batches p ! 2) = Some e)"
    by blast
  then have b': "error (batches p ! 2) = Some ''f2''"
    by (auto simp: o2)
  from retry_semantics[OF p l0] cb qp
  have t: "\<forall>j<length ex_batches. status (batches p ! j) = Completed \<or>
                                   status (batches p ! j) = Failed"
    by blast
  from retry_semantics[OF q l0] pq have c: "\<exists>ev. step ex_pool_options ev q \<noteq> None"
    by blast
  from retry_semantics[OF q l0] cb
  have d: "\<exists>evs' q'. processAllBatches ex_batches ex_pool_options (take 2 ex_events @ evs') = Some q' \<and>
        quiescent q' \<and>
        (\<forall>j<length ex_batches. status (batches q' ! j) = Completed \<or>
                                 status (batches q' ! j) = Failed)"
    by blast
  from p q l0 l2 o0 o2 a b b' e2 pq c cb qp t d show ?thesis
    by (intro exI[of _ p] exI[of _ q]) simp
qed

text \<open>
  Claim C3 as stated lets the other batches reach a terminal state in every case. With
  one slot and a callback that throws, the batch whose agent calls all fail ends
  \<open>failed\<close> after its 3 attempts, its task ends in the callback without releasing the
  slot, and the two other batches wait for the slot with no event enabled: they stay
  \<open>pending\<close>.
\<close>

theorem retry_blocked_counterexample:
  "map_option (map status \<circ> batches)
     (processAllBatches ex_batches throwing_serial_options failing_events) =
     Some [Failed, Pending, Pending] \<and>
   map_option (error \<circ> hd \<circ> batches)
     (processAllBatches ex_batches throwing_serial_options failing_events) =
     Some (Some ''e2'') \<and>
   map_option (length \<circ> filter is_invoke \<circ> task_trace 0)
     (processAllBatches ex_batches throwing_serial_options failing_events) = Some 3 \<and>
   map_option pcs
     (processAllBatches ex_batches throwing_serial_options failing_events) =
     Some [Threw ''callback failed'', Waiting, Waiting] \<and>
   map_option (queue \<circ> semaphore)
     (processAllBatches ex_batches throwing_serial_options failing_events) = Some [1, 2] \<and>
   map_option quiescent
     (processAllBatches ex_batches throwing_serial_options failing_events) = Some True"
  by (intro conjI) code_simp+

section \<open>Verification: reducer\<close>

lemma reduceConcatenate_examples:
  "reduceConcatenate [''only one''] = ''only one''"
  "reduceConcatenate [''a'', ''b''] =
     ''## Batch 1 of 2'' @ nl @ nl @ ''a'' @ nl @ nl @ ''---'' @ nl @ nl @
     ''## Batch 2 of 2'' @ nl @ nl @ ''b''"
  by code_simp+

lemma reduceSummarize_unfold:
  "reduceSummarize ag options rs sent =
     (if 150000 < real (length (reduceConcatenate rs)) / 4
      then reduceHierarchical ag options 0 rs sent
      else (case invokeAgent ag
                   (buildReducePrompt (reduceConcatenate rs) (length rs) options None None None)
                   sent of
              (Fulfilled summary, sent') \<Rightarrow> Some (Fulfilled summary, sent')
            | (Rejected e, sent') \<Rightarrow> Some (Fulfilled (reduceConcatenate rs), sent')))"
  unfolding reduceSummarize_def reduceHierarchical_def
  by (subst reduce_rec.simps) (simp add: Let_def)

lemma reduceHierarchical_unfold:
  "reduceHierarchical ag options level rs sent =
     (if length rs \<le> hierarchical_reduce_fanin
      then reduceSummarize ag options rs sent
      else (let groups = group_loop rs 0 [];
                (groupSummaries, sent') =
                   reduce_groups ag options level (length groups) 0 groups sent
            in if hierarchical_reduce_fanin < length groupSummaries
               then reduceHierarchical ag options (level + 1) groupSummaries sent'
               else reduceSummarize ag options groupSummaries sent'))"
  unfolding reduceSummarize_def reduceHierarchical_def
  by (subst reduce_rec.simps) (simp add: Let_def)



lemma reduce_rec_oversize:
  assumes "reduce_rec ag options call rs sent = Some y"
  shows "\<not> (length rs \<le> hierarchical_reduce_fanin \<and> 600000 < length (reduceConcatenate rs))"
proof (rule reduce_rec.raw_induct[where P = "\<lambda>ag options call rs sent y.
         \<not> (length rs \<le> hierarchical_reduce_fanin \<and> 600000 < length (reduceConcatenate rs))",
         OF _ assms], goal_cases)
  case (1 rec ag options call rs sent y)
  show ?case
  proof
    assume bad: "length rs \<le> hierarchical_reduce_fanin \<and> 600000 < length (reduceConcatenate rs)"
    then have big: "150000 < real (length (reduceConcatenate rs)) / 4" by simp
    have "\<exists>c. rec ag options c rs sent = Some y"
    proof (cases call)
      case Summarize
      with 1(2) big show ?thesis by (auto simp: Let_def)
    next
      case (Hierarchical level)
      with 1(2) bad show ?thesis by (auto simp: Let_def)
    qed
    then obtain c where "rec ag options c rs sent = Some y" ..
    from 1(1)[OF this] bad show False by simp
  qed
qed


lemma group_loop_45:
  assumes "length rs = 45"
  shows "group_loop rs 0 [] = [take 20 rs, take 20 (drop 20 rs), drop 40 rs]"
proof -
  have "group_loop rs 0 [] = group_loop rs 20 [slice rs 0 20]"
    using assms by (subst group_loop.simps) (simp add: hierarchical_reduce_fanin_def)
  also have "\<dots> = group_loop rs 40 [slice rs 0 20, slice rs 20 40]"
    using assms by (subst group_loop.simps) (simp add: hierarchical_reduce_fanin_def)
  also have "\<dots> = group_loop rs 60 [slice rs 0 20, slice rs 20 40, slice rs 40 60]"
    using assms by (subst group_loop.simps) (simp add: hierarchical_reduce_fanin_def)
  also have "\<dots> = [slice rs 0 20, slice rs 20 40, slice rs 40 60]"
    using assms by (subst group_loop.simps) simp
  finally show ?thesis using assms by (simp add: slice_def)
qed

lemma reduce_group_eq:
  "reduce_group ag options level totalGroups groupIndex grp sent =
     (let prompt = buildReducePrompt (reduceConcatenate grp) (length grp) options
                     (Some level) (Some groupIndex) (Some totalGroups)
      in (case ag (length sent) prompt of
            Fulfilled summary \<Rightarrow> summary
          | Rejected e \<Rightarrow> reduceConcatenate grp,
          sent @ [prompt]))"
  by (simp add: reduce_group_def invokeAgent_def Let_def split: settled.splits)

lemma oversize_example:
  "reduceConcatenate [replicate 600001 (CHR ''x'')] = replicate 600001 (CHR ''x'')"
  by (simp add: reduceConcatenate_def)



text \<open>
  Claim C10 fails on the code: on a list of at most 20 results whose concatenated form
  is longer than 600000 characters, \<open>reduceSummarize\<close> delegates to
  \<open>reduceHierarchical\<close>, whose base case delegates back on the unchanged list; neither
  call ever returns a result.
\<close>

theorem reduce_oversize_never_returns:
  assumes "length rs \<le> hierarchical_reduce_fanin"
      and "600000 < length (reduceConcatenate rs)"
  shows "reduceSummarize ag options rs sent = None \<and>
         reduceHierarchical ag options level rs sent = None"
proof -
  have "reduce_rec ag options call rs sent = None" for call
  proof (cases "reduce_rec ag options call rs sent")
    case None
    then show ?thesis .
  next
    case (Some y)
    from reduce_rec_oversize[OF this] assms show ?thesis by simp
  qed
  then show ?thesis
    by (simp add: reduceSummarize_def reduceHierarchical_def)
qed

theorem reduce_oversize_never_returns_witness:
  "length [replicate 600001 (CHR ''x'')] \<le> hierarchical_reduce_fanin \<and>
   600000 < length (reduceConcatenate [replicate 600001 (CHR ''x'')]) \<and>
   reduceSummarize failing_agent ex_options [replicate 600001 (CHR ''x'')] [] = None \<and>
   reduceHierarchical failing_agent ex_options 0 [replicate 600001 (CHR ''x'')] [] = None"
proof -
  have h1: "length [replicate 600001 (CHR ''x'')] \<le> hierarchical_reduce_fanin"
    by (simp add: hierarchical_reduce_fanin_def)
  have h2: "600000 < length (reduceConcatenate [replicate 600001 (CHR ''x'')])"
    by (simp add: oversize_example)
  from reduce_oversize_never_returns[OF h1 h2] h1 h2 show ?thesis by blast
qed

lemma reduce_groups_three:
  fixes options :: ReduceOptions
  defines "pr \<equiv> (\<lambda>level t g grp. buildReducePrompt (reduceConcatenate grp) (length grp) options
                     (Some level) (Some g) (Some t))"
  defines "sm \<equiv> (\<lambda>ag callNo prompt grp.
             case ag callNo prompt of Fulfilled summary \<Rightarrow> summary
                                    | Rejected e \<Rightarrow> reduceConcatenate grp)"
  shows "reduce_groups ag options level t 0 [a, b, c] sent =
     ([sm ag (length sent) (pr level t 0 a) a,
       sm ag (length sent + 1) (pr level t 1 b) b,
       sm ag (length sent + 2) (pr level t 2 c) c],
      sent @ [pr level t 0 a, pr level t 1 b, pr level t 2 c])"
  by (simp add: reduce_group_eq Let_def pr_def sm_def numeral_2_eq_2)

text \<open>A pass of \<open>reduceSummarize\<close> below the threshold, and a call above it.\<close>

lemma reduceSummarize_pass:
  assumes "length (reduceConcatenate rs) \<le> 600000"
  shows "reduceSummarize ag options rs sent =
           Some (Fulfilled
                   (case ag (length sent)
                           (buildReducePrompt (reduceConcatenate rs) (length rs) options
                              None None None) of
                      Fulfilled summary \<Rightarrow> summary
                    | Rejected e \<Rightarrow> reduceConcatenate rs),
                 sent @ [buildReducePrompt (reduceConcatenate rs) (length rs) options
                           None None None])"
  using assms
  by (subst reduceSummarize_unfold) (simp add: invokeAgent_def split: settled.splits)

lemma reduce_rec_None:
  assumes "length rs \<le> hierarchical_reduce_fanin" and "600000 < length (reduceConcatenate rs)"
  shows "reduce_rec ag options call rs sent = None"
proof (cases "reduce_rec ag options call rs sent")
  case None
  then show ?thesis .
next
  case (Some y)
  from reduce_rec_oversize[OF this] assms show ?thesis by simp
qed

text \<open>The concatenated form is at least as long as its parts together.\<close>

lemma join_length:
  "sum_list (map length xs) \<le> length (join sep xs)"
  by (induction sep xs rule: join.induct) simp_all

lemma heading_length:
  "length r \<le> length (batch_heading n (i, r))"
  by (simp add: batch_heading_def)

lemma headings_length:
  "sum_list (map length rs) \<le> sum_list (map length (map (batch_heading n) (enumerate k rs)))"
proof (induction rs arbitrary: k)
  case Nil
  show ?case by simp
next
  case (Cons r rs)
  have "sum_list (map length (map (batch_heading n) (enumerate k (r # rs)))) =
        length (batch_heading n (k, r)) +
        sum_list (map length (map (batch_heading n) (enumerate (Suc k) rs)))"
    by simp
  with heading_length[of r n k] Cons.IH[of "Suc k"] show ?case by simp
qed

lemma reduceConcatenate_length:
  "sum_list (map length rs) \<le> length (reduceConcatenate rs)"
proof (cases "length rs = 1")
  case True
  then obtain r where "rs = [r]" by (cases rs) auto
  then show ?thesis by (simp add: reduceConcatenate_def)
next
  case False
  have "sum_list (map length rs) \<le>
        sum_list (map length (map (batch_heading (length rs)) (enumerate 0 rs)))"
    by (rule headings_length)
  also have "\<dots> \<le> length (join (nl @ nl @ ''---'' @ nl @ nl)
                           (map (batch_heading (length rs)) (enumerate 0 rs)))"
    by (rule join_length)
  finally show ?thesis using False by (simp add: reduceConcatenate_def)
qed

text \<open>
  Claim C8 on the code. With the fan-in of 20, \<open>reduceHierarchical\<close> on 15 results makes
  no grouping step: it is the single pass of \<open>reduceSummarize\<close> on these results, which
  sends one prompt and returns the agent's answer, or the plain concatenation when the
  agent rejects. On 45 results it forms the three consecutive groups of sizes 20, 20
  and 5, sends one group prompt per group, and takes as each group's summary the
  agent's answer, or that group's own plain concatenation when the agent rejects
  (whatever the outcomes for the other groups are). Then comes the final pass on the
  three summaries: it sends a fourth prompt and returns the agent's answer, or the
  plain concatenation of the three summaries when the agent rejects.

  A final output is produced only while the concatenated form that \<open>reduceSummarize\<close>
  is given has at most 600000 characters. Above that, the claim fails: neither the
  direct delegation nor the final pass ever returns a result.
\<close>

theorem reduceHierarchical_cases:
  fixes rs sent :: "string list" and options :: ReduceOptions and level :: nat and ag :: agent
  defines "g0 \<equiv> take 20 rs" and "g1 \<equiv> take 20 (drop 20 rs)" and "g2 \<equiv> drop 40 rs"
  defines "pr \<equiv> (\<lambda>g grp. buildReducePrompt (reduceConcatenate grp) (length grp) options
                     (Some level) (Some g) (Some 3))"
  defines "sm \<equiv> (\<lambda>callNo prompt grp.
             case ag callNo prompt of Fulfilled summary \<Rightarrow> summary
                                    | Rejected e \<Rightarrow> reduceConcatenate grp)"
  defines "s0 \<equiv> sm (length sent) (pr 0 g0) g0"
      and "s1 \<equiv> sm (length sent + 1) (pr 1 g1) g1"
      and "s2 \<equiv> sm (length sent + 2) (pr 2 g2) g2"
  defines "single \<equiv> buildReducePrompt (reduceConcatenate rs) 15 options None None None"
  defines "final \<equiv> buildReducePrompt (reduceConcatenate [s0, s1, s2]) 3 options None None None"
  shows "(length rs = 15 \<longrightarrow>
            (length (reduceConcatenate rs) \<le> 600000 \<longrightarrow>
               reduceHierarchical ag options level rs sent =
                 Some (Fulfilled (case ag (length sent) single of
                                    Fulfilled summary \<Rightarrow> summary
                                  | Rejected e \<Rightarrow> reduceConcatenate rs),
                       sent @ [single])) \<and>
            (600000 < length (reduceConcatenate rs) \<longrightarrow>
               reduceHierarchical ag options level rs sent = None)) \<and>
         (length rs = 45 \<longrightarrow>
            group_loop rs 0 [] = [g0, g1, g2] \<and>
            map length [g0, g1, g2] = [20, 20, 5] \<and> g0 @ g1 @ g2 = rs \<and>
            reduce_groups ag options level 3 0 [g0, g1, g2] sent =
              ([s0, s1, s2], sent @ [pr 0 g0, pr 1 g1, pr 2 g2]) \<and>
            (length (reduceConcatenate [s0, s1, s2]) \<le> 600000 \<longrightarrow>
               reduceHierarchical ag options level rs sent =
                 Some (Fulfilled (case ag (length sent + 3) final of
                                    Fulfilled summary \<Rightarrow> summary
                                  | Rejected e \<Rightarrow> reduceConcatenate [s0, s1, s2]),
                       sent @ [pr 0 g0, pr 1 g1, pr 2 g2, final])) \<and>
            (600000 < length (reduceConcatenate [s0, s1, s2]) \<longrightarrow>
               reduceHierarchical ag options level rs sent = None))"
proof (intro conjI impI)
  assume L: "length rs = 15"
  then have base: "reduceHierarchical ag options level rs sent = reduceSummarize ag options rs sent"
    by (subst reduceHierarchical_unfold) (simp add: hierarchical_reduce_fanin_def)
  {
    assume "length (reduceConcatenate rs) \<le> 600000"
    from reduceSummarize_pass[OF this, of ag options sent] base L
    show "reduceHierarchical ag options level rs sent =
            Some (Fulfilled (case ag (length sent) single of
                               Fulfilled summary \<Rightarrow> summary
                             | Rejected e \<Rightarrow> reduceConcatenate rs),
                  sent @ [single])"
      by (simp add: single_def)
  }
  {
    assume "600000 < length (reduceConcatenate rs)"
    moreover from L have "length rs \<le> hierarchical_reduce_fanin"
      by (simp add: hierarchical_reduce_fanin_def)
    ultimately show "reduceHierarchical ag options level rs sent = None"
      by (simp add: reduceHierarchical_def reduce_rec_None)
  }
next
  assume L: "length rs = 45"
  then show gl: "group_loop rs 0 [] = [g0, g1, g2]"
    by (simp add: group_loop_45 g0_def g1_def g2_def)
  show "map length [g0, g1, g2] = [20, 20, 5]"
    using L by (simp add: g0_def g1_def g2_def)
  show "g0 @ g1 @ g2 = rs"
    unfolding g0_def g1_def g2_def
    by (metis append_take_drop_id drop_drop numeral_Bit0 add.commute)
  show gs: "reduce_groups ag options level 3 0 [g0, g1, g2] sent =
              ([s0, s1, s2], sent @ [pr 0 g0, pr 1 g1, pr 2 g2])"
    by (simp add: reduce_groups_three pr_def sm_def s0_def s1_def s2_def
          del: reduce_groups.simps)
  have last: "reduceHierarchical ag options level rs sent =
                reduceSummarize ag options [s0, s1, s2] (sent @ [pr 0 g0, pr 1 g1, pr 2 g2])"
    using L
    by (subst reduceHierarchical_unfold)
       (simp add: gl gs[unfolded numeral_3_eq_3] hierarchical_reduce_fanin_def
          del: reduce_groups.simps)
  {
    assume "length (reduceConcatenate [s0, s1, s2]) \<le> 600000"
    from reduceSummarize_pass[OF this, of ag options "sent @ [pr 0 g0, pr 1 g1, pr 2 g2]"] last
    show "reduceHierarchical ag options level rs sent =
            Some (Fulfilled (case ag (length sent + 3) final of
                               Fulfilled summary \<Rightarrow> summary
                             | Rejected e \<Rightarrow> reduceConcatenate [s0, s1, s2]),
                  sent @ [pr 0 g0, pr 1 g1, pr 2 g2, final])"
      by (simp add: final_def numeral_3_eq_3)
  }
  {
    assume "600000 < length (reduceConcatenate [s0, s1, s2])"
    moreover have "length [s0, s1, s2] \<le> hierarchical_reduce_fanin"
      by (simp add: hierarchical_reduce_fanin_def)
    ultimately have "reduce_rec ag options Summarize [s0, s1, s2]
                       (sent @ [pr 0 g0, pr 1 g1, pr 2 g2]) = None"
      by (rule reduce_rec_None[rotated])
    with last show "reduceHierarchical ag options level rs sent = None"
      by (simp add: reduceSummarize_def)
  }
qed

lemma small_examples:
  "length (reduceConcatenate (replicate 15 ''r'')) = 389"
  "length (reduceConcatenate [''S'', reduceConcatenate (replicate 20 ''r''), ''S'']) = 591"
  by code_simp+

lemma big_group:
  "n * 15000 \<le> length (reduceConcatenate (replicate n (replicate 15000 (CHR ''x''))))"
  using reduceConcatenate_length[of "replicate n (replicate 15000 (CHR ''x''))"]
  by (simp add: sum_list_replicate)

lemma big_summaries:
  "600000 < length (reduceConcatenate
      [reduceConcatenate (replicate 20 (replicate 15000 (CHR ''x''))),
       reduceConcatenate (replicate 20 (replicate 15000 (CHR ''x''))),
       reduceConcatenate (replicate 5 (replicate 15000 (CHR ''x'')))])"
  using reduceConcatenate_length[of
      "[reduceConcatenate (replicate 20 (replicate 15000 (CHR ''x''))),
        reduceConcatenate (replicate 20 (replicate 15000 (CHR ''x''))),
        reduceConcatenate (replicate 5 (replicate 15000 (CHR ''x'')))]"]
    big_group[of 20] big_group[of 5]
  by simp

theorem reduceHierarchical_cases_witness:
  "length (replicate 15 ''r'') = 15 \<and>
   length (reduceConcatenate (replicate 15 ''r'')) \<le> 600000 \<and>
   reduceHierarchical failing_agent ex_options 0 (replicate 15 ''r'') [] =
     Some (Fulfilled (reduceConcatenate (replicate 15 ''r'')),
           [buildReducePrompt (reduceConcatenate (replicate 15 ''r'')) 15 ex_options
              None None None]) \<and>
   length (replicate 45 ''r'') = 45 \<and>
   group_loop (replicate 45 ''r'') 0 [] =
     [replicate 20 ''r'', replicate 20 ''r'', replicate 5 ''r''] \<and>
   length (reduceConcatenate [''S'', reduceConcatenate (replicate 20 ''r''), ''S'']) \<le> 600000 \<and>
   reduceHierarchical flaky_agent ex_options 0 (replicate 45 ''r'') [] =
     Some (Fulfilled ''S'',
           [buildReducePrompt (reduceConcatenate (replicate 20 ''r'')) 20 ex_options
              (Some 0) (Some 0) (Some 3),
            buildReducePrompt (reduceConcatenate (replicate 20 ''r'')) 20 ex_options
              (Some 0) (Some 1) (Some 3),
            buildReducePrompt (reduceConcatenate (replicate 5 ''r'')) 5 ex_options
              (Some 0) (Some 2) (Some 3),
            buildReducePrompt
              (reduceConcatenate [''S'', reduceConcatenate (replicate 20 ''r''), ''S'']) 3
              ex_options None None None]) \<and>
   length (replicate 45 (replicate 15000 (CHR ''x''))) = 45 \<and>
   600000 < length (reduceConcatenate
      [reduceConcatenate (replicate 20 (replicate 15000 (CHR ''x''))),
       reduceConcatenate (replicate 20 (replicate 15000 (CHR ''x''))),
       reduceConcatenate (replicate 5 (replicate 15000 (CHR ''x'')))]) \<and>
   reduceHierarchical failing_agent ex_options 0 (replicate 45 (replicate 15000 (CHR ''x''))) [] =
     None"
proof -
  have a: "reduceHierarchical failing_agent ex_options 0 (replicate 15 ''r'') [] =
     Some (Fulfilled (reduceConcatenate (replicate 15 ''r'')),
           [buildReducePrompt (reduceConcatenate (replicate 15 ''r'')) 15 ex_options
              None None None])"
    using reduceHierarchical_cases[where rs = "replicate 15 ''r''" and ag = failing_agent
            and sent = "[]" and options = ex_options and level = 0]
    by (simp add: small_examples failing_agent_def)
  have b: "group_loop (replicate 45 ''r'') 0 [] =
             [replicate 20 ''r'', replicate 20 ''r'', replicate 5 ''r''] \<and>
           reduceHierarchical flaky_agent ex_options 0 (replicate 45 ''r'') [] =
     Some (Fulfilled ''S'',
           [buildReducePrompt (reduceConcatenate (replicate 20 ''r'')) 20 ex_options
              (Some 0) (Some 0) (Some 3),
            buildReducePrompt (reduceConcatenate (replicate 20 ''r'')) 20 ex_options
              (Some 0) (Some 1) (Some 3),
            buildReducePrompt (reduceConcatenate (replicate 5 ''r'')) 5 ex_options
              (Some 0) (Some 2) (Some 3),
            buildReducePrompt
              (reduceConcatenate [''S'', reduceConcatenate (replicate 20 ''r''), ''S'']) 3
              ex_options None None None])"
    using reduceHierarchical_cases[where rs = "replicate 45 ''r''" and ag = flaky_agent
            and sent = "[]" and options = ex_options and level = 0]
    by (simp add: small_examples flaky_agent_def)
  have c: "reduceHierarchical failing_agent ex_options 0
             (replicate 45 (replicate 15000 (CHR ''x''))) [] = None"
    using reduceHierarchical_cases[where rs = "replicate 45 (replicate 15000 (CHR ''x''))"
            and ag = failing_agent and sent = "[]" and options = ex_options and level = 0] big_summaries
    by (simp add: failing_agent_def)
  from a b c big_summaries show ?thesis
    by (simp add: small_examples)
qed

end
